theory Spec2Isabelle
  imports Complex_Main "HOL-Library.Multiset" "HOL-Library.AList"
begin

section \<open>Python values and errors\<close>

text \<open>
  The exceptions the modelled code can raise. A function that can raise returns
  \<open>py_error + 'a\<close>, with \<open>Inl\<close> for the exception.
\<close>

datatype py_error = KeyError | IndexError | TypeError | ValueError

text \<open>
  Transaction amounts are Python floats; they are modelled as exact reals, so the
  rounding error, the infinities and the NaN of IEEE doubles are outside the model.
\<close>

section \<open>The standard library's heapq, on a list\<close>

text \<open>
  heap.py builds both heaps on \<open>heapq.heappush\<close> and \<open>heapq.heappop\<close>. They are
  modelled as CPython's heapq.py writes them, on the list that is the heap, so that the
  lists of the model are the lists of the program.

  \<open>heapq._siftdown(heap, startpos, pos)\<close>: the item at \<open>pos\<close> moves towards the root
  while it is smaller than its parent. The loop is \<open>siftdown_loop\<close>; it returns the list
  and the position where the item is written afterwards.
\<close>

function siftdown_loop :: "real list \<Rightarrow> nat \<Rightarrow> real \<Rightarrow> nat \<Rightarrow> real list \<times> nat" where
  "siftdown_loop heap startpos newitem pos =
     (if pos > startpos then
        (let parentpos = (pos - 1) div 2;
             parent = heap ! parentpos
         in if newitem < parent
            then siftdown_loop (heap[pos := parent]) startpos newitem parentpos
            else (heap, pos))
      else (heap, pos))"
  by pat_completeness auto
termination
  by (relation "measure (\<lambda>(heap, startpos, newitem, pos). pos)") auto

declare siftdown_loop.simps [simp del]

definition siftdown :: "real list \<Rightarrow> nat \<Rightarrow> nat \<Rightarrow> real list" where
  "siftdown heap startpos pos =
     (let newitem = heap ! pos;
          (heap', pos') = siftdown_loop heap startpos newitem pos
      in heap'[pos' := newitem])"

text \<open>
  \<open>heapq._siftup(heap, pos)\<close>: the smaller child moves up until a leaf is reached, the
  item is written there and then sifted towards the root again.
\<close>

function siftup_loop :: "real list \<Rightarrow> nat \<Rightarrow> nat \<Rightarrow> real list \<times> nat" where
  "siftup_loop heap endpos pos =
     (let childpos = 2 * pos + 1
      in if childpos < endpos then
           (let rightpos = childpos + 1;
                childpos' = (if rightpos < endpos \<and> \<not> heap ! childpos < heap ! rightpos
                             then rightpos else childpos)
            in siftup_loop (heap[pos := heap ! childpos']) endpos childpos')
         else (heap, pos))"
  by pat_completeness auto
termination
  by (relation "measure (\<lambda>(heap, endpos, pos). endpos - pos)") auto

declare siftup_loop.simps [simp del]

definition siftup :: "real list \<Rightarrow> nat \<Rightarrow> real list" where
  "siftup heap pos =
     (let endpos = length heap;
          startpos = pos;
          newitem = heap ! pos;
          (heap', pos') = siftup_loop heap endpos pos
      in siftdown (heap'[pos' := newitem]) startpos pos')"

definition heappush :: "real list \<Rightarrow> real \<Rightarrow> real list" where
  "heappush heap item = siftdown (heap @ [item]) 0 (length heap)"

text \<open>\<open>heapq.heappop\<close> raises IndexError on an empty list (from \<open>heap.pop()\<close>).\<close>

definition heappop :: "real list \<Rightarrow> py_error + (real \<times> real list)" where
  "heappop heap =
     (if heap = [] then Inl IndexError
      else (let lastelt = last heap;
                heap' = butlast heap
            in if heap' \<noteq> []
               then Inr (heap' ! 0, siftup (heap'[0 := lastelt]) 0)
               else Inr (lastelt, heap')))"

section \<open>heap.py: MinHeap and MaxHeap\<close>

datatype MinHeap = MinHeap (min_heap: "real list")

text \<open>A MaxHeap keeps the negated values in a min-heap list.\<close>

datatype MaxHeap = MaxHeap (max_heap: "real list")

definition MinHeap_new :: MinHeap where
  "MinHeap_new = MinHeap []"

definition MaxHeap_new :: MaxHeap where
  "MaxHeap_new = MaxHeap []"

definition MinHeap_push :: "MinHeap \<Rightarrow> real \<Rightarrow> MinHeap" where
  "MinHeap_push h v = MinHeap (heappush (min_heap h) v)"

definition MinHeap_pop :: "MinHeap \<Rightarrow> py_error + (real option \<times> MinHeap)" where
  "MinHeap_pop h =
     (if min_heap h \<noteq> [] then
        (case heappop (min_heap h) of
           Inl e \<Rightarrow> Inl e
         | Inr (v, heap') \<Rightarrow> Inr (Some v, MinHeap heap'))
      else Inr (None, h))"

definition MinHeap_peek :: "MinHeap \<Rightarrow> real option" where
  "MinHeap_peek h = (if min_heap h \<noteq> [] then Some (min_heap h ! 0) else None)"

definition MinHeap_size :: "MinHeap \<Rightarrow> nat" where
  "MinHeap_size h = length (min_heap h)"

definition MinHeap_empty :: "MinHeap \<Rightarrow> bool" where
  "MinHeap_empty h = (if \<not> (min_heap h \<noteq> []) then True else False)"

definition MaxHeap_push :: "MaxHeap \<Rightarrow> real \<Rightarrow> MaxHeap" where
  "MaxHeap_push h v = MaxHeap (heappush (max_heap h) (- v))"

definition MaxHeap_pop :: "MaxHeap \<Rightarrow> py_error + (real option \<times> MaxHeap)" where
  "MaxHeap_pop h =
     (if max_heap h \<noteq> [] then
        (case heappop (max_heap h) of
           Inl e \<Rightarrow> Inl e
         | Inr (v, heap') \<Rightarrow> Inr (Some (- v), MaxHeap heap'))
      else Inr (None, h))"

definition MaxHeap_peek :: "MaxHeap \<Rightarrow> real option" where
  "MaxHeap_peek h = (if max_heap h \<noteq> [] then Some (- (max_heap h ! 0)) else None)"

definition MaxHeap_size :: "MaxHeap \<Rightarrow> nat" where
  "MaxHeap_size h = length (max_heap h)"

definition MaxHeap_empty :: "MaxHeap \<Rightarrow> bool" where
  "MaxHeap_empty h = (if \<not> (max_heap h \<noteq> []) then True else False)"

section \<open>Python builtins used by the handlers\<close>

text \<open>
  The repository runs on Python 2 and on Python 3 (it imports \<open>Queue\<close> or \<open>queue\<close> by
  \<open>sys.version_info\<close>). The two differ in \<open>round\<close>: Python 2 rounds a tie away from zero
  and returns a float, Python 3 rounds a tie to the even neighbour.
\<close>

datatype py_version = Py2 | Py3

definition py2_round :: "real \<Rightarrow> real" where
  "py2_round x = (if 0 \<le> x then of_int \<lfloor>x + 1 / 2\<rfloor> else of_int \<lceil>x - 1 / 2\<rceil>)"

definition py3_round :: "real \<Rightarrow> real" where
  "py3_round x =
     (let f = \<lfloor>x\<rfloor>;
          d = x - of_int f
      in if d < 1 / 2 then of_int f
         else if 1 / 2 < d then of_int (f + 1)
         else if even f then of_int f else of_int (f + 1))"

fun py_round :: "py_version \<Rightarrow> real \<Rightarrow> real" where
  "py_round Py2 x = py2_round x"
| "py_round Py3 x = py3_round x"

text \<open>\<open>int(x)\<close> of a float truncates towards zero.\<close>

definition py_int :: "real \<Rightarrow> int" where
  "py_int x = (if 0 \<le> x then \<lfloor>x\<rfloor> else \<lceil>x\<rceil>)"

text \<open>Decimal rendering of an integer, as \<open>%d\<close> prints it.\<close>

definition digit_char :: "nat \<Rightarrow> char" where
  "digit_char d = ''0123456789'' ! d"

function str_nat :: "nat \<Rightarrow> string" where
  "str_nat n = (if n < 10 then [digit_char n] else str_nat (n div 10) @ [digit_char (n mod 10)])"
  by pat_completeness auto
termination
  by (relation "measure (\<lambda>n. n)") auto

declare str_nat.simps [simp del]

definition str_int :: "int \<Rightarrow> string" where
  "str_int i = (if i < 0 then CHR ''-'' # str_nat (nat (- i)) else str_nat (nat i))"

text \<open>\<open>s.split(c)\<close>: the fields between the separators; never an empty list.\<close>

fun split_on :: "char \<Rightarrow> string \<Rightarrow> string list" where
  "split_on c [] = [[]]"
| "split_on c (x # xs) =
     (if x = c then [] # split_on c xs
      else (let r = split_on c xs in (x # hd r) # tl r))"

text \<open>\<open>xs[i]\<close> with a non-negative index, and \<open>d[k]\<close> on a dictionary.\<close>

definition list_get :: "'a list \<Rightarrow> nat \<Rightarrow> py_error + 'a" where
  "list_get xs i = (if i < length xs then Inr (xs ! i) else Inl IndexError)"

text \<open>
  A dictionary is an association list in insertion order: \<open>AList.update\<close> overwrites
  the value of a key that is there and appends a new key at the end.
\<close>

definition dict_get :: "('k \<times> 'v) list \<Rightarrow> 'k \<Rightarrow> py_error + 'v" where
  "dict_get d k = (case map_of d k of None \<Rightarrow> Inl KeyError | Some v \<Rightarrow> Inr v)"

definition dict_contains :: "('k \<times> 'v) list \<Rightarrow> 'k \<Rightarrow> bool" where
  "dict_contains d k = (map_of d k \<noteq> None)"

section \<open>transaction\_handling.py\<close>

text \<open>
  The state of one worker: the two dictionaries and the output file, as the lines
  written so far and whether the file is closed. The task queue is the list of records
  the worker is run on.
\<close>

record TransactionThread =
  total_amt_dict :: "(string \<times> real) list"
  transaction_amt_heaps :: "(string \<times> (MaxHeap \<times> MinHeap)) list"
  output_file :: "string list"
  output_closed :: bool

definition TransactionThread_init :: TransactionThread where
  "TransactionThread_init =
     \<lparr>total_amt_dict = [], transaction_amt_heaps = [], output_file = [], output_closed = False\<rparr>"

text \<open>
  \<open>bigger_heap\<close> and \<open>smaller_heap\<close> are bound to either heap of the pair; the methods
  called on them dispatch on the class.
\<close>

datatype any_heap = Lower MaxHeap | Higher MinHeap

fun heap_size :: "any_heap \<Rightarrow> nat" where
  "heap_size (Lower h) = MaxHeap_size h"
| "heap_size (Higher h) = MinHeap_size h"

fun heap_peek :: "any_heap \<Rightarrow> real option" where
  "heap_peek (Lower h) = MaxHeap_peek h"
| "heap_peek (Higher h) = MinHeap_peek h"

fun heap_pop :: "any_heap \<Rightarrow> py_error + (real option \<times> any_heap)" where
  "heap_pop (Lower h) =
     (case MaxHeap_pop h of Inl e \<Rightarrow> Inl e | Inr (v, h') \<Rightarrow> Inr (v, Lower h'))"
| "heap_pop (Higher h) =
     (case MinHeap_pop h of Inl e \<Rightarrow> Inl e | Inr (v, h') \<Rightarrow> Inr (v, Higher h'))"

text \<open>
  \<open>push\<close> of a value that may be None (what \<open>pop\<close> returns on an empty heap): negating
  None, or comparing it, is a TypeError. The callers pop only from a heap of size at
  least 2, so the None branch is never taken.
\<close>

fun heap_push :: "any_heap \<Rightarrow> real option \<Rightarrow> py_error + any_heap" where
  "heap_push h None = Inl TypeError"
| "heap_push (Lower h) (Some v) = Inr (Lower (MaxHeap_push h v))"
| "heap_push (Higher h) (Some v) = Inr (Higher (MinHeap_push h v))"

text \<open>The pair \<open>(lower_heap, higher_heap)\<close> again, from the two references.\<close>

fun heap_pair :: "any_heap \<Rightarrow> any_heap \<Rightarrow> (MaxHeap \<times> MinHeap) option" where
  "heap_pair (Lower l) (Higher h) = Some (l, h)"
| "heap_pair (Higher h) (Lower l) = Some (l, h)"
| "heap_pair _ _ = None"

definition bigger_smaller :: "MaxHeap \<times> MinHeap \<Rightarrow> any_heap \<times> any_heap" where
  "bigger_smaller p =
     (if MaxHeap_size (fst p) > MinHeap_size (snd p)
      then (Lower (fst p), Higher (snd p))
      else (Higher (snd p), Lower (fst p)))"

definition transaction_heaps_add_number ::
  "TransactionThread \<Rightarrow> string \<Rightarrow> real \<Rightarrow> py_error + TransactionThread" where
  "transaction_heaps_add_number self identifier number =
     (let heaps = (if \<not> dict_contains (transaction_amt_heaps self) identifier
                   then AList.update identifier (MaxHeap_new, MinHeap_new) (transaction_amt_heaps self)
                   else transaction_amt_heaps self)
      in case dict_get heaps identifier of
           Inl e \<Rightarrow> Inl e
         | Inr (lower, higher) \<Rightarrow>
             if MaxHeap_empty lower then
               Inr (self\<lparr>transaction_amt_heaps :=
                          AList.update identifier (MaxHeap_push lower number, higher) heaps\<rparr>)
             else
               (case MaxHeap_peek lower of
                  None \<Rightarrow> Inl TypeError
                | Some peeked \<Rightarrow>
                    if number < peeked then
                      Inr (self\<lparr>transaction_amt_heaps :=
                                 AList.update identifier (MaxHeap_push lower number, higher) heaps\<rparr>)
                    else
                      Inr (self\<lparr>transaction_amt_heaps :=
                                 AList.update identifier (lower, MinHeap_push higher number) heaps\<rparr>)))"

text \<open>The body of the \<open>try\<close> in \<open>transaction_heaps_rebalance\<close>.\<close>

definition rebalance_body :: "TransactionThread \<Rightarrow> string \<Rightarrow> py_error + TransactionThread" where
  "rebalance_body self identifier =
     (case dict_get (transaction_amt_heaps self) identifier of
        Inl e \<Rightarrow> Inl e
      | Inr p \<Rightarrow>
          (let (bigger_heap, smaller_heap) = bigger_smaller p
           in if int (heap_size bigger_heap) - int (heap_size smaller_heap) \<ge> 2 then
                (case heap_pop bigger_heap of
                   Inl e \<Rightarrow> Inl e
                 | Inr (v, bigger_heap') \<Rightarrow>
                     (case heap_push smaller_heap v of
                        Inl e \<Rightarrow> Inl e
                      | Inr smaller_heap' \<Rightarrow>
                          (case heap_pair bigger_heap' smaller_heap' of
                             None \<Rightarrow> Inl TypeError
                           | Some p' \<Rightarrow>
                               Inr (self\<lparr>transaction_amt_heaps :=
                                          AList.update identifier p' (transaction_amt_heaps self)\<rparr>))))
              else Inr self))"

text \<open>
  \<open>except IndexError\<close>: the message is printed and the method returns; every other
  exception propagates. The body raises before it changes anything.
\<close>

definition transaction_heaps_rebalance ::
  "TransactionThread \<Rightarrow> string \<Rightarrow> py_error + TransactionThread" where
  "transaction_heaps_rebalance self identifier =
     (case rebalance_body self identifier of
        Inl IndexError \<Rightarrow> Inr self
      | r \<Rightarrow> r)"

text \<open>
  The body of the \<open>try\<close> in \<open>transaction_heaps_get_median\<close>; adding or rounding None is
  a TypeError.
\<close>

definition get_median_body ::
  "py_version \<Rightarrow> TransactionThread \<Rightarrow> string \<Rightarrow> py_error + int" where
  "get_median_body v self identifier =
     (case dict_get (transaction_amt_heaps self) identifier of
        Inl e \<Rightarrow> Inl e
      | Inr p \<Rightarrow>
          (let (bigger_heap, smaller_heap) = bigger_smaller p
           in if heap_size bigger_heap = heap_size smaller_heap then
                (case (heap_peek bigger_heap, heap_peek smaller_heap) of
                   (Some a, Some b) \<Rightarrow> Inr (py_int (py_round v ((a + b) / 2)))
                 | _ \<Rightarrow> Inl TypeError)
              else
                (case heap_peek bigger_heap of
                   Some a \<Rightarrow> Inr (py_int (py_round v a))
                 | None \<Rightarrow> Inl TypeError)))"

text \<open>The result is None when the IndexError handler returns.\<close>

definition transaction_heaps_get_median ::
  "py_version \<Rightarrow> TransactionThread \<Rightarrow> string \<Rightarrow> py_error + int option" where
  "transaction_heaps_get_median v self identifier =
     (case get_median_body v self identifier of
        Inl IndexError \<Rightarrow> Inr None
      | Inl e \<Rightarrow> Inl e
      | Inr m \<Rightarrow> Inr (Some m))"

text \<open>
  The record a handler receives: the dictionary with the keys \<open>cmte_id\<close>, \<open>zipcode\<close>,
  \<open>transaction_dt\<close> and \<open>transaction_amt\<close>.
\<close>

record data =
  cmte_id :: string
  zipcode :: string
  transaction_dt :: string
  transaction_amt :: real

text \<open>\<open>'%s|%s|%d|%d|%d\n' % (...)\<close>; \<open>%d\<close> of None is a TypeError.\<close>

definition format_line :: "string \<Rightarrow> string \<Rightarrow> int option \<Rightarrow> nat \<Rightarrow> int \<Rightarrow> py_error + string" where
  "format_line key1 key2 median number_of_transactions total_transaction_amount =
     (case median of
        None \<Rightarrow> Inl TypeError
      | Some m \<Rightarrow>
          Inr (key1 @ ''|'' @ key2 @ ''|'' @ str_int m @ ''|''
               @ str_nat number_of_transactions @ ''|''
               @ str_int total_transaction_amount @ [CHR 0x0A]))"

text \<open>Writing to a closed file is a ValueError.\<close>

definition file_write :: "TransactionThread \<Rightarrow> string \<Rightarrow> py_error + TransactionThread" where
  "file_write self line =
     (if output_closed self then Inl ValueError
      else Inr (self\<lparr>output_file := output_file self @ [line]\<rparr>))"

definition file_close :: "TransactionThread \<Rightarrow> TransactionThread" where
  "file_close self = self\<lparr>output_closed := True\<rparr>"

text \<open>
  The statements both handlers run on a record that is not the end marker: the running
  total of the identifier, the insertion into its heaps and the rebalancing.
\<close>

definition handler_store ::
  "TransactionThread \<Rightarrow> string \<Rightarrow> real \<Rightarrow> py_error + TransactionThread" where
  "handler_store self identifier amt =
     (let totals = (if \<not> dict_contains (total_amt_dict self) identifier
                    then AList.update identifier 0 (total_amt_dict self)
                    else total_amt_dict self)
      in case dict_get totals identifier of
           Inl e \<Rightarrow> Inl e
         | Inr t \<Rightarrow>
             (case transaction_heaps_add_number
                     (self\<lparr>total_amt_dict := AList.update identifier (t + amt) totals\<rparr>)
                     identifier amt of
                Inl e \<Rightarrow> Inl e
              | Inr self' \<Rightarrow> transaction_heaps_rebalance self' identifier))"

text \<open>
  One output line for an identifier: the number of transactions, the median and the
  truncated total, written under the two key parts given.
\<close>

definition write_report_line ::
  "py_version \<Rightarrow> TransactionThread \<Rightarrow> string \<Rightarrow> string \<Rightarrow> string \<Rightarrow> py_error + TransactionThread" where
  "write_report_line v self identifier key1 key2 =
     (case dict_get (transaction_amt_heaps self) identifier of
        Inl e \<Rightarrow> Inl e
      | Inr p \<Rightarrow>
          (let number_of_transactions = MaxHeap_size (fst p) + MinHeap_size (snd p)
           in case transaction_heaps_get_median v self identifier of
                Inl e \<Rightarrow> Inl e
              | Inr median \<Rightarrow>
                  (case dict_get (total_amt_dict self) identifier of
                     Inl e \<Rightarrow> Inl e
                   | Inr tot \<Rightarrow>
                       (let total_transaction_amount = py_int tot
                        in case format_line key1 key2 median number_of_transactions
                                  total_transaction_amount of
                             Inl e \<Rightarrow> Inl e
                           | Inr line \<Rightarrow> file_write self line))))"

text \<open>
  \<open>TransactionByDateThread.handler\<close> on the end marker: the loop over the identifiers of
  \<open>transaction_amt_heaps\<close>, in the dictionary's order. The key parts are read back from
  the identifier by \<open>split('|')\<close>; the handler evaluates the median and the total before
  it splits.
\<close>

fun date_report :: "py_version \<Rightarrow> TransactionThread \<Rightarrow> string list \<Rightarrow> py_error + TransactionThread" where
  "date_report v self [] = Inr self"
| "date_report v self (identifier # rest) =
     (case dict_get (transaction_amt_heaps self) identifier of
        Inl e \<Rightarrow> Inl e
      | Inr p \<Rightarrow>
          (case transaction_heaps_get_median v self identifier of
             Inl e \<Rightarrow> Inl e
           | Inr median \<Rightarrow>
               (case dict_get (total_amt_dict self) identifier of
                  Inl e \<Rightarrow> Inl e
                | Inr tot \<Rightarrow>
                    (case list_get (split_on CHR ''|'' identifier) 0 of
                       Inl e \<Rightarrow> Inl e
                     | Inr cmte \<Rightarrow>
                         (case list_get (split_on CHR ''|'' identifier) 1 of
                            Inl e \<Rightarrow> Inl e
                          | Inr dt \<Rightarrow>
                              (case write_report_line v self identifier cmte dt of
                                 Inl e \<Rightarrow> Inl e
                               | Inr self' \<Rightarrow> date_report v self' rest))))))"

definition date_handler :: "py_version \<Rightarrow> TransactionThread \<Rightarrow> data \<Rightarrow> py_error + TransactionThread" where
  "date_handler v self d =
     (if cmte_id d = [] then
        (case date_report v self (map fst (transaction_amt_heaps self)) of
           Inl e \<Rightarrow> Inl e
         | Inr self' \<Rightarrow> Inr (file_close self'))
      else
        handler_store self (cmte_id d @ ''|'' @ transaction_dt d) (transaction_amt d))"

definition zip_handler :: "py_version \<Rightarrow> TransactionThread \<Rightarrow> data \<Rightarrow> py_error + TransactionThread" where
  "zip_handler v self d =
     (if cmte_id d = [] then Inr (file_close self)
      else
        (let identifier = cmte_id d @ ''|'' @ zipcode d
         in case handler_store self identifier (transaction_amt d) of
              Inl e \<Rightarrow> Inl e
            | Inr self' \<Rightarrow> write_report_line v self' identifier (cmte_id d) (zipcode d)))"

text \<open>
  \<open>TransactionThread.run\<close> on the records put in the task queue, in their order; an
  exception of the handler ends the worker.
\<close>

fun run :: "(TransactionThread \<Rightarrow> data \<Rightarrow> py_error + TransactionThread)
            \<Rightarrow> TransactionThread \<Rightarrow> data list \<Rightarrow> py_error + TransactionThread" where
  "run handler self [] = Inr self"
| "run handler self (d # queue) =
     (case handler self d of
        Inl e \<Rightarrow> Inl e
      | Inr self' \<Rightarrow> run handler self' queue)"

section \<open>main.py\<close>

definition CMTE_ID_POSITION :: nat where "CMTE_ID_POSITION = 0"
definition ZIPCODE_POSITION :: nat where "ZIPCODE_POSITION = 10"
definition TRANSACTION_DT_POSITION :: nat where "TRANSACTION_DT_POSITION = 13"
definition TRANSACTION_AMT_POSITION :: nat where "TRANSACTION_AMT_POSITION = 14"
definition OTHER_ID_POSITION :: nat where "OTHER_ID_POSITION = 15"

text \<open>
  The two library calls of main.py are parameters of the model: \<open>py_float s\<close> is the
  value of \<open>float(s)\<close>, None when it raises ValueError, and \<open>strptime s\<close> says whether
  \<open>datetime.strptime(s, '%m%d%Y')\<close> returns.
\<close>

definition is_valid_date :: "(string \<Rightarrow> bool) \<Rightarrow> string \<Rightarrow> bool" where
  "is_valid_date strptime date_str = (if strptime date_str then True else False)"

definition is_number :: "(string \<Rightarrow> real option) \<Rightarrow> string \<Rightarrow> bool" where
  "is_number py_float s = (case py_float s of None \<Rightarrow> False | Some _ \<Rightarrow> True)"

text \<open>
  The body of the loop of \<open>read_file\<close> on one line, with the two task queues as the
  records added so far. A line of fewer than 16 columns raises IndexError. The record put
  in the date queue is the object whose \<open>zipcode\<close> is cut to 5 characters afterwards;
  the date handler never reads that field, and the queue keeps the record as it was put.
\<close>

definition read_line ::
  "(string \<Rightarrow> real option) \<Rightarrow> (string \<Rightarrow> bool) \<Rightarrow> string
   \<Rightarrow> data list \<times> data list \<Rightarrow> py_error + (data list \<times> data list)" where
  "read_line py_float strptime line queues =
     (let line_items = split_on CHR ''|'' line
      in case list_get line_items OTHER_ID_POSITION of
           Inl e \<Rightarrow> Inl e
         | Inr other_id \<Rightarrow>
             if other_id \<noteq> [] then Inr queues
             else
               (case list_get line_items CMTE_ID_POSITION of
                  Inl e \<Rightarrow> Inl e
                | Inr cmte \<Rightarrow>
                    (case list_get line_items TRANSACTION_AMT_POSITION of
                       Inl e \<Rightarrow> Inl e
                     | Inr amt \<Rightarrow>
                         if cmte = [] \<or> amt = [] \<or> \<not> is_number py_float amt then Inr queues
                         else
                           (case list_get line_items ZIPCODE_POSITION of
                              Inl e \<Rightarrow> Inl e
                            | Inr zipc \<Rightarrow>
                                (case list_get line_items TRANSACTION_DT_POSITION of
                                   Inl e \<Rightarrow> Inl e
                                 | Inr dt \<Rightarrow>
                                     (case py_float amt of
                                        None \<Rightarrow> Inl ValueError
                                      | Some a \<Rightarrow>
                                          (let distilled_data =
                                                 \<lparr>cmte_id = cmte, zipcode = zipc,
                                                  transaction_dt = dt, transaction_amt = a\<rparr>;
                                               by_date =
                                                 (if transaction_dt distilled_data \<noteq> []
                                                     \<and> is_valid_date strptime (transaction_dt distilled_data)
                                                  then fst queues @ [distilled_data]
                                                  else fst queues);
                                               by_zip =
                                                 (if length (zipcode distilled_data) \<ge> 5
                                                  then snd queues
                                                       @ [distilled_data\<lparr>zipcode :=
                                                            take 5 (zipcode distilled_data)\<rparr>]
                                                  else snd queues)
                                           in Inr (by_date, by_zip))))))))"

fun read_lines ::
  "(string \<Rightarrow> real option) \<Rightarrow> (string \<Rightarrow> bool) \<Rightarrow> string list
   \<Rightarrow> data list \<times> data list \<Rightarrow> py_error + (data list \<times> data list)" where
  "read_lines py_float strptime [] queues = Inr queues"
| "read_lines py_float strptime (line # rest) queues =
     (case read_line py_float strptime line queues of
        Inl e \<Rightarrow> Inl e
      | Inr queues' \<Rightarrow> read_lines py_float strptime rest queues')"

definition end_data :: data where
  "end_data = \<lparr>cmte_id = [], zipcode = [], transaction_dt = [], transaction_amt = 0\<rparr>"

text \<open>
  \<open>read_file\<close> on the lines of the input file: the records put in the queue of the date
  worker and in the queue of the zip worker, each closed by the end marker.
\<close>

definition read_file ::
  "(string \<Rightarrow> real option) \<Rightarrow> (string \<Rightarrow> bool) \<Rightarrow> string list
   \<Rightarrow> py_error + (data list \<times> data list)" where
  "read_file py_float strptime input_file =
     (case read_lines py_float strptime input_file ([], []) of
        Inl e \<Rightarrow> Inl e
      | Inr (by_date, by_zip) \<Rightarrow> Inr (by_date @ [end_data], by_zip @ [end_data]))"

section \<open>Concrete library functions for the examples\<close>

text \<open>
  A \<open>float\<close> that reads the amounts the examples use, and a \<open>strptime\<close> that accepts the
  dates they use.
\<close>

definition demo_float :: "string \<Rightarrow> real option" where
  "demo_float s =
     (if s = ''100'' then Some 100
      else if s = ''300'' then Some 300
      else if s = ''-50'' then Some (- 50)
      else None)"

definition demo_strptime :: "string \<Rightarrow> bool" where
  "demo_strptime s = (s = ''01312017'' \<or> s = ''08012020'')"

section \<open>Invariants and auxiliary notions of the proofs\<close>

text \<open>
  The list of a heap is ordered along the tree it stores: the item at \<open>i\<close> is not below
  its parent at \<open>(i - 1) div 2\<close>. While an item is sifted, one position is exempt:
  \<open>up_defect\<close> exempts the edge to its parent, \<open>down_defect\<close> the edges to its
  parent and to its children; in both, its children are not below its parent.
  \<open>min_child\<close> is the child \<open>_siftup\<close> moves up. \<open>pair_after_add\<close> and
  \<open>pair_after_rebalance\<close> are what the two methods leave in the pair of an identifier,
  \<open>heaps_or_new\<close> the pair an insertion starts from.
\<close>

definition min_child :: "real list \<Rightarrow> nat \<Rightarrow> nat \<Rightarrow> nat" where
  "min_child heap endpos pos =
     (if 2 * pos + 2 < endpos \<and> \<not> heap ! (2 * pos + 1) < heap ! (2 * pos + 2)
      then 2 * pos + 2 else 2 * pos + 1)"

definition heap_inv :: "real list \<Rightarrow> bool" where
  "heap_inv h = (\<forall>i\<in>{1..<length h}. h ! ((i - 1) div 2) \<le> h ! i)"

definition up_defect :: "real list \<Rightarrow> nat \<Rightarrow> bool" where
  "up_defect h p =
     ((\<forall>i\<in>{1..<length h}. i \<noteq> p \<longrightarrow> h ! ((i - 1) div 2) \<le> h ! i)
      \<and> (\<forall>c\<in>{1..<length h}. (c - 1) div 2 = p \<and> 0 < p \<longrightarrow> h ! ((p - 1) div 2) \<le> h ! c))"

definition down_defect :: "real list \<Rightarrow> nat \<Rightarrow> bool" where
  "down_defect h p =
     ((\<forall>i\<in>{1..<length h}. i \<noteq> p \<and> (i - 1) div 2 \<noteq> p \<longrightarrow> h ! ((i - 1) div 2) \<le> h ! i)
      \<and> (\<forall>c\<in>{1..<length h}. (c - 1) div 2 = p \<and> 0 < p \<longrightarrow> h ! ((p - 1) div 2) \<le> h ! c))"

definition pair_after_add :: "MaxHeap \<times> MinHeap \<Rightarrow> real \<Rightarrow> MaxHeap \<times> MinHeap" where
  "pair_after_add p x =
     (if max_heap (fst p) = [] \<or> x < - (max_heap (fst p) ! 0)
      then (MaxHeap_push (fst p) x, snd p)
      else (fst p, MinHeap_push (snd p) x))"

definition pair_after_rebalance :: "MaxHeap \<times> MinHeap \<Rightarrow> MaxHeap \<times> MinHeap" where
  "pair_after_rebalance p =
     (if MinHeap_size (snd p) + 2 \<le> MaxHeap_size (fst p) then
        (case heappop (max_heap (fst p)) of
           Inr (v, l') \<Rightarrow> (MaxHeap l', MinHeap_push (snd p) (- v))
         | Inl e \<Rightarrow> p)
      else if MaxHeap_size (fst p) + 2 \<le> MinHeap_size (snd p) then
        (case heappop (min_heap (snd p)) of
           Inr (v, h') \<Rightarrow> (MaxHeap_push (fst p) v, MinHeap h')
         | Inl e \<Rightarrow> p)
      else p)"

definition heaps_or_new :: "TransactionThread \<Rightarrow> string \<Rightarrow> MaxHeap \<times> MinHeap" where
  "heaps_or_new self k =
     (case map_of (transaction_amt_heaps self) k of None \<Rightarrow> (MaxHeap_new, MinHeap_new) | Some p \<Rightarrow> p)"

section \<open>Call sequences on one identifier\<close>

text \<open>
  \<open>insert_number\<close> is the insertion followed by the rebalancing, as both handlers call
  them; \<open>insert_all\<close> repeats it over a list of numbers. \<open>run_calls\<close> runs any sequence
  of the two methods and stops at the first exception. \<open>tracker_size\<close> is the number of
  values in the two heaps of an identifier (0 when it has none), \<open>running_sum\<close> the total
  stored for it (0 when it has none), \<open>balanced\<close> says that the two sizes differ by at
  most one and \<open>pair_median_value\<close> is the root, or the mean of the two roots, that
  \<open>transaction_heaps_get_median\<close> rounds.
\<close>

definition insert_number :: "TransactionThread \<Rightarrow> string \<Rightarrow> real \<Rightarrow> py_error + TransactionThread" where
  "insert_number self identifier number =
     (case transaction_heaps_add_number self identifier number of
        Inl e \<Rightarrow> Inl e
      | Inr self' \<Rightarrow> transaction_heaps_rebalance self' identifier)"

fun insert_all :: "TransactionThread \<Rightarrow> string \<Rightarrow> real list \<Rightarrow> py_error + TransactionThread" where
  "insert_all self identifier [] = Inr self"
| "insert_all self identifier (x # xs) =
     (case insert_number self identifier x of
        Inl e \<Rightarrow> Inl e
      | Inr self' \<Rightarrow> insert_all self' identifier xs)"

datatype heap_call = AddNumber real | Rebalance

fun do_call :: "TransactionThread \<Rightarrow> string \<Rightarrow> heap_call \<Rightarrow> py_error + TransactionThread" where
  "do_call self identifier (AddNumber x) = transaction_heaps_add_number self identifier x"
| "do_call self identifier Rebalance = transaction_heaps_rebalance self identifier"

fun run_calls :: "TransactionThread \<Rightarrow> string \<Rightarrow> heap_call list \<Rightarrow> py_error + TransactionThread" where
  "run_calls self identifier [] = Inr self"
| "run_calls self identifier (c # cs) =
     (case do_call self identifier c of
        Inl e \<Rightarrow> Inl e
      | Inr self' \<Rightarrow> run_calls self' identifier cs)"

fun count_adds :: "heap_call list \<Rightarrow> nat" where
  "count_adds [] = 0"
| "count_adds (AddNumber x # cs) = Suc (count_adds cs)"
| "count_adds (Rebalance # cs) = count_adds cs"

definition tracker_size :: "TransactionThread \<Rightarrow> string \<Rightarrow> nat" where
  "tracker_size self identifier =
     (case map_of (transaction_amt_heaps self) identifier of
        None \<Rightarrow> 0
      | Some p \<Rightarrow> MaxHeap_size (fst p) + MinHeap_size (snd p))"

definition pair_size :: "MaxHeap \<times> MinHeap \<Rightarrow> nat" where
  "pair_size p = MaxHeap_size (fst p) + MinHeap_size (snd p)"

definition balanced :: "MaxHeap \<times> MinHeap \<Rightarrow> bool" where
  "balanced p = (MaxHeap_size (fst p) \<le> MinHeap_size (snd p) + 1
                 \<and> MinHeap_size (snd p) \<le> MaxHeap_size (fst p) + 1)"

definition running_sum :: "TransactionThread \<Rightarrow> string \<Rightarrow> real" where
  "running_sum self identifier =
     (case map_of (total_amt_dict self) identifier of None \<Rightarrow> 0 | Some t \<Rightarrow> t)"

definition pair_median_value :: "MaxHeap \<times> MinHeap \<Rightarrow> real" where
  "pair_median_value p =
     (if MaxHeap_size (fst p) = MinHeap_size (snd p)
      then (min_heap (snd p) ! 0 + - (max_heap (fst p) ! 0)) / 2
      else if MinHeap_size (snd p) < MaxHeap_size (fst p) then - (max_heap (fst p) ! 0)
      else min_heap (snd p) ! 0)"

section \<open>Notions of the specification\<close>

text \<open>
  The rounding the specification asks for: the nearest integer, a tie going away from
  zero. \<open>last_field\<close> is the final field of an output line: the text after the last
  \<open>|\<close>, without the newline that ends the line. \<open>statistical_median\<close> is the
  median of a list of values: the middle one of the sorted list when their number is odd,
  the mean of the two middle ones when it is even.
\<close>

definition round_half_away :: "real \<Rightarrow> int" where
  "round_half_away x = (if 0 \<le> x then \<lfloor>x + 1 / 2\<rfloor> else \<lceil>x - 1 / 2\<rceil>)"

definition last_field :: "string \<Rightarrow> string" where
  "last_field line = rev (takeWhile (\<lambda>c. c \<noteq> CHR ''|'') (rev (butlast line)))"

section \<open>The invariant of a pair of heaps\<close>

text \<open>
  \<open>low_values\<close> and \<open>high_values\<close> are the values the two heaps hold (a MaxHeap stores
  them negated). \<open>ordered_pair p M\<close>: both lists are heaps, together they hold the
  multiset \<open>M\<close>, and no value of the low heap is above a value of the high heap.
\<close>

definition statistical_median :: "real list \<Rightarrow> real" where
  "statistical_median xs =
     (let s = sort xs; n = length xs
      in if odd n then s ! (n div 2) else (s ! (n div 2 - 1) + s ! (n div 2)) / 2)"

definition low_values :: "MaxHeap \<Rightarrow> real multiset" where
  "low_values l = image_mset uminus (mset (max_heap l))"

definition high_values :: "MinHeap \<Rightarrow> real multiset" where
  "high_values h = mset (min_heap h)"

definition ordered_pair :: "MaxHeap \<times> MinHeap \<Rightarrow> real multiset \<Rightarrow> bool" where
  "ordered_pair p M =
     (heap_inv (max_heap (fst p)) \<and> heap_inv (min_heap (snd p))
      \<and> low_values (fst p) + high_values (snd p) = M
      \<and> (\<forall>a\<in>#low_values (fst p). \<forall>b\<in>#high_values (snd p). a \<le> b))"

section \<open>Empty heaps and missing identifiers\<close>

text \<open>
  C10. \<open>pop\<close> and \<open>peek\<close> of an empty MinHeap or MaxHeap return None and raise nothing.
  A tracker whose two heaps are both empty therefore hands None roots to
  \<open>transaction_heaps_get_median\<close>, whose addition of them is a TypeError, not an
  IndexError.
\<close>

theorem empty_heap_pop_peek_none:
  "MinHeap_pop (MinHeap []) = Inr (None, MinHeap [])
   \<and> MinHeap_peek (MinHeap []) = None
   \<and> MaxHeap_pop (MaxHeap []) = Inr (None, MaxHeap [])
   \<and> MaxHeap_peek (MaxHeap []) = None
   \<and> MinHeap_new = MinHeap [] \<and> MaxHeap_new = MaxHeap []
   \<and> transaction_heaps_get_median v
         (self\<lparr>transaction_amt_heaps := [(k, (MaxHeap_new, MinHeap_new))]\<rparr>) k = Inl TypeError"
  by (simp add: MinHeap_pop_def MinHeap_peek_def MaxHeap_pop_def MaxHeap_peek_def
      MinHeap_new_def MaxHeap_new_def transaction_heaps_get_median_def get_median_body_def
      dict_get_def bigger_smaller_def MaxHeap_size_def MinHeap_size_def)

text \<open>
  C7. For an identifier that was never inserted into, \<open>transaction_heaps_rebalance\<close> and
  \<open>transaction_heaps_get_median\<close> raise KeyError: the dictionary lookup fails, the
  handler of the \<open>try\<close> catches IndexError only, so the exception propagates and no
  number is returned.
\<close>

theorem missing_key_raises:
  assumes "\<not> dict_contains (transaction_amt_heaps self) identifier"
  shows "transaction_heaps_rebalance self identifier = Inl KeyError
         \<and> transaction_heaps_get_median v self identifier = Inl KeyError"
proof -
  have "map_of (transaction_amt_heaps self) identifier = None"
    using assms unfolding dict_contains_def by blast
  then have "dict_get (transaction_amt_heaps self) identifier = Inl KeyError"
    by (simp add: dict_get_def)
  then show ?thesis
    by (simp add: transaction_heaps_rebalance_def rebalance_body_def
        transaction_heaps_get_median_def get_median_body_def)
qed

theorem missing_key_raises_witness:
  "\<not> dict_contains (transaction_amt_heaps TransactionThread_init) ''C00177436|01312017''
   \<and> transaction_heaps_rebalance TransactionThread_init ''C00177436|01312017'' = Inl KeyError
   \<and> transaction_heaps_get_median Py3 TransactionThread_init ''C00177436|01312017'' = Inl KeyError"
proof -
  have h: "\<not> dict_contains (transaction_amt_heaps TransactionThread_init) ''C00177436|01312017''"
    by (simp add: dict_contains_def TransactionThread_init_def)
  show ?thesis using h missing_key_raises [OF h, of Py3] by simp
qed

section \<open>Dispatch of the input lines\<close>

lemma read_lines_append:
  "read_lines pf sp (xs @ ys) q =
     (case read_lines pf sp xs q of Inl e \<Rightarrow> Inl e | Inr q' \<Rightarrow> read_lines pf sp ys q')"
  by (induction xs arbitrary: q) (auto split: sum.splits)

text \<open>
  C9. A line whose column 15 (the other-id) is there and is not empty adds a record to
  neither queue, and the queues \<open>read_file\<close> builds from the whole file are those it
  builds from the file without that line: the line reaches neither worker, so it
  contributes to neither report.
\<close>

theorem other_id_record_dropped:
  assumes "OTHER_ID_POSITION < length (split_on CHR ''|'' line)"
    and "split_on CHR ''|'' line ! OTHER_ID_POSITION \<noteq> []"
  shows "read_line py_float strptime line queues = Inr queues
         \<and> read_file py_float strptime (before @ line # after)
             = read_file py_float strptime (before @ after)"
proof -
  have one: "\<And>q. read_line py_float strptime line q = Inr q"
    using assms by (simp add: read_line_def list_get_def)
  have "\<And>q. read_lines py_float strptime (before @ line # after) q
            = read_lines py_float strptime (before @ after) q"
    by (simp add: read_lines_append one split: sum.splits)
  then show ?thesis using one by (simp add: read_file_def)
qed

theorem other_id_record_dropped_witness:
  "OTHER_ID_POSITION < length (split_on CHR ''|'' ''C1||||||||||12345|||01312017|100|X|'')
   \<and> split_on CHR ''|'' ''C1||||||||||12345|||01312017|100|X|'' ! OTHER_ID_POSITION \<noteq> []
   \<and> read_line demo_float demo_strptime ''C1||||||||||12345|||01312017|100|X|'' ([], [])
       = Inr ([], [])
   \<and> read_file demo_float demo_strptime ([] @ ''C1||||||||||12345|||01312017|100|X|'' # [])
       = read_file demo_float demo_strptime ([] @ [])"
proof -
  have s: "split_on CHR ''|'' ''C1||||||||||12345|||01312017|100|X|'' =
      [''C1'', [], [], [], [], [], [], [], [], [], ''12345'', [], [], ''01312017'', ''100'', ''X'', []]"
    by simp
  have h1: "OTHER_ID_POSITION < length (split_on CHR ''|'' ''C1||||||||||12345|||01312017|100|X|'')"
    unfolding s by (simp add: OTHER_ID_POSITION_def)
  have h2: "split_on CHR ''|'' ''C1||||||||||12345|||01312017|100|X|'' ! OTHER_ID_POSITION \<noteq> []"
    unfolding s by (simp add: OTHER_ID_POSITION_def)
  show ?thesis
    using h1 h2 other_id_record_dropped [OF h1 h2, of demo_float demo_strptime "([], [])" "[]" "[]"]
    by blast
qed

section \<open>Correctness of heapq\<close>

lemma siftdown_loop_step:
  "startpos < pos \<Longrightarrow> newitem < heap ! ((pos - 1) div 2) \<Longrightarrow>
   siftdown_loop heap startpos newitem pos =
   siftdown_loop (heap[pos := heap ! ((pos - 1) div 2)]) startpos newitem ((pos - 1) div 2)"
  by (subst siftdown_loop.simps) (simp add: Let_def)

lemma siftdown_loop_stop:
  "\<not> (startpos < pos \<and> newitem < heap ! ((pos - 1) div 2)) \<Longrightarrow>
   siftdown_loop heap startpos newitem pos = (heap, pos)"
  by (subst siftdown_loop.simps) (auto simp add: Let_def)

lemma siftup_loop_step:
  "2 * pos + 1 < endpos \<Longrightarrow>
   siftup_loop heap endpos pos =
   siftup_loop (heap[pos := heap ! min_child heap endpos pos]) endpos (min_child heap endpos pos)"
  by (subst siftup_loop.simps) (simp add: Let_def min_child_def)

lemma siftup_loop_stop:
  "\<not> 2 * pos + 1 < endpos \<Longrightarrow> siftup_loop heap endpos pos = (heap, pos)"
  by (subst siftup_loop.simps) (simp add: Let_def)

lemma siftdown_loop_length:
  "siftdown_loop h s n p = (h', p') \<Longrightarrow> length h' = length h \<and> p' \<le> p"
proof (induction h s n p arbitrary: h' p' rule: siftdown_loop.induct)
  case (1 heap startpos newitem pos)
  show ?case
  proof (cases "startpos < pos \<and> newitem < heap ! ((pos - 1) div 2)")
    case True
    then have "siftdown_loop (heap[pos := heap ! ((pos - 1) div 2)]) startpos newitem ((pos - 1) div 2) = (h', p')"
      using "1.prems" by (simp add: siftdown_loop_step)
    from "1.IH"[OF _ refl refl _ this] True
    show ?thesis by auto
  next
    case False
    then show ?thesis using "1.prems" by (simp add: siftdown_loop_stop)
  qed
qed

lemma length_siftdown [simp]: "length (siftdown h s p) = length h"
proof -
  obtain h' p' where e: "siftdown_loop h s (h ! p) p = (h', p')" by force
  then show ?thesis
    using siftdown_loop_length[OF e] by (simp add: siftdown_def Let_def)
qed

lemma min_child_bounds:
  "2 * pos + 1 < endpos \<Longrightarrow> pos < min_child heap endpos pos \<and> min_child heap endpos pos < endpos"
  by (simp add: min_child_def)

lemma siftup_loop_length:
  "siftup_loop h e p = (h', p') \<Longrightarrow> length h' = length h \<and> p \<le> p'"
proof (induction h e p arbitrary: h' p' rule: siftup_loop.induct)
  case (1 heap endpos pos)
  show ?case
  proof (cases "2 * pos + 1 < endpos")
    case True
    have c: "min_child heap endpos pos =
             (if 2 * pos + 1 + 1 < endpos \<and> \<not> heap ! (2 * pos + 1) < heap ! (2 * pos + 1 + 1)
              then 2 * pos + 1 + 1 else 2 * pos + 1)"
      by (simp add: min_child_def)
    from True have "siftup_loop (heap[pos := heap ! min_child heap endpos pos]) endpos
                      (min_child heap endpos pos) = (h', p')"
      using "1.prems" by (simp add: siftup_loop_step)
    from "1.IH"[OF refl True refl refl this[unfolded c]] min_child_bounds[OF True, of heap]
    show ?thesis unfolding c by auto
  next
    case False
    then show ?thesis using "1.prems" by (simp add: siftup_loop_stop)
  qed
qed

lemma length_siftup [simp]: "length (siftup h p) = length h"
proof -
  obtain h' p' where e: "siftup_loop h (length h) p = (h', p')" by force
  then show ?thesis
    using siftup_loop_length[OF e] by (simp add: siftup_def Let_def)
qed

lemma length_heappush [simp]: "length (heappush h x) = Suc (length h)"
  by (simp add: heappush_def)

lemma heappop_nonempty:
  "h \<noteq> [] \<Longrightarrow> \<exists>v h'. heappop h = Inr (v, h') \<and> length h' = length h - 1"
  by (cases h rule: rev_cases) (auto simp add: heappop_def Let_def)

lemma parent_less: "0 < (i::nat) \<Longrightarrow> (i - 1) div 2 < i"
  by arith

lemma up_defect_swap:
  assumes d: "up_defect A p" and p: "0 < p" "p < length A"
    and lt: "A ! p < A ! ((p - 1) div 2)"
  shows "up_defect (A[p := A ! ((p - 1) div 2), (p - 1) div 2 := A ! p]) ((p - 1) div 2)"
proof -
  let ?q = "(p - 1) div 2"
  let ?B = "A[p := A ! ?q, ?q := A ! p]"
  have q: "?q < p" using p by arith
  have edge: "\<And>i. 0 < i \<Longrightarrow> i < length A \<Longrightarrow> i \<noteq> p \<Longrightarrow> A ! ((i - 1) div 2) \<le> A ! i"
    using d by (simp add: up_defect_def)
  have grand: "\<And>c. 0 < c \<Longrightarrow> c < length A \<Longrightarrow> (c - 1) div 2 = p \<Longrightarrow> A ! ?q \<le> A ! c"
    using d p by (simp add: up_defect_def)
  have Bp: "?B ! p = A ! ?q" using p q by (simp add: nth_list_update)
  have Bq: "?B ! ?q = A ! p" using p q by (simp add: nth_list_update)
  have Bo: "\<And>i. i \<noteq> p \<Longrightarrow> i \<noteq> ?q \<Longrightarrow> ?B ! i = A ! i" by (simp add: nth_list_update)
  have e1: "?B ! ((i - 1) div 2) \<le> ?B ! i" if i: "0 < i" "i < length A" "i \<noteq> ?q" for i
  proof (cases "i = p")
    case True
    then show ?thesis using Bp Bq lt by simp
  next
    case ip: False
    show ?thesis
    proof (cases "(i - 1) div 2 = ?q")
      case True
      have "A ! ?q \<le> A ! i" using edge[OF i(1) i(2) ip] True by simp
      then show ?thesis using True Bq Bo[OF ip i(3)] lt by simp
    next
      case nq: False
      show ?thesis
      proof (cases "(i - 1) div 2 = p")
        case True
        then show ?thesis using grand[OF i(1) i(2) True] Bp Bo[OF ip i(3)] by simp
      next
        case False
        then show ?thesis using edge[OF i(1) i(2) ip] Bo[OF ip i(3)] Bo[OF False nq] by simp
      qed
    qed
  qed
  have e2: "?B ! ((?q - 1) div 2) \<le> ?B ! c"
    if c: "0 < c" "c < length A" "(c - 1) div 2 = ?q" "0 < ?q" for c
  proof -
    have qq: "(?q - 1) div 2 < ?q" using c(4) by arith
    have g: "?B ! ((?q - 1) div 2) = A ! ((?q - 1) div 2)"
      using qq q by (intro Bo) auto
    have eq: "A ! ((?q - 1) div 2) \<le> A ! ?q"
      using edge[of ?q] c(4) q p by simp
    have cq: "c \<noteq> ?q" using c(1) c(3) parent_less[of c] by auto
    show ?thesis
    proof (cases "c = p")
      case True
      then show ?thesis using g eq Bp by simp
    next
      case False
      have "A ! ?q \<le> A ! c" using edge[OF c(1) c(2) False] c(3) by simp
      then show ?thesis using g eq Bo[OF False cq] by simp
    qed
  qed
  show ?thesis
    unfolding up_defect_def using e1 e2 by auto
qed

lemma up_defect_done:
  assumes "up_defect A p" and "p = 0 \<or> A ! ((p - 1) div 2) \<le> A ! p"
  shows "heap_inv A"
  using assms unfolding up_defect_def heap_inv_def by (metis atLeastLessThan_iff less_one not_le)

lemma siftdown_loop_correct:
  "pos < length heap \<Longrightarrow> up_defect (heap[pos := newitem]) pos \<Longrightarrow>
   siftdown_loop heap 0 newitem pos = (h', p') \<Longrightarrow>
   heap_inv (h'[p' := newitem]) \<and> mset (h'[p' := newitem]) = mset (heap[pos := newitem])"
proof (induction pos arbitrary: heap rule: less_induct)
  case (less pos)
  let ?q = "(pos - 1) div 2"
  let ?A = "heap[pos := newitem]"
  show ?case
  proof (cases "0 < pos \<and> newitem < heap ! ?q")
    case True
    then have q: "?q < pos" by arith
    have Aq: "?A ! ?q = heap ! ?q" using q by simp
    have Ap: "?A ! pos = newitem" using less.prems(1) by simp
    have run: "siftdown_loop (heap[pos := heap ! ?q]) 0 newitem ?q = (h', p')"
      using less.prems(3) True by (simp add: siftdown_loop_step)
    have sw: "(heap[pos := heap ! ?q])[?q := newitem] = ?A[pos := ?A ! ?q, ?q := ?A ! pos]"
      using Aq Ap by simp
    have "up_defect (?A[pos := ?A ! ?q, ?q := ?A ! pos]) ?q"
      using up_defect_swap[OF less.prems(2)] True less.prems(1) Aq Ap by simp
    then have ud: "up_defect ((heap[pos := heap ! ?q])[?q := newitem]) ?q"
      using sw by simp
    have len: "?q < length (heap[pos := heap ! ?q])" using q less.prems(1) by simp
    have "heap_inv (h'[p' := newitem]) \<and>
          mset (h'[p' := newitem]) = mset ((heap[pos := heap ! ?q])[?q := newitem])"
      using less.IH[OF q len ud run] .
    moreover have "mset (?A[pos := ?A ! ?q, ?q := ?A ! pos]) = mset ?A"
      using mset_swap[of ?q ?A pos] q less.prems(1) by simp
    ultimately show ?thesis using sw by simp
  next
    case False
    then have "(h', p') = (heap, pos)"
      using less.prems(3) by (simp add: siftdown_loop_stop)
    moreover have "heap_inv ?A"
      using up_defect_done[OF less.prems(2)] False less.prems(1)
      by (cases "pos = 0") (auto simp: nth_list_update parent_less)
    ultimately show ?thesis by simp
  qed
qed

lemma siftdown_correct:
  assumes "pos < length A" and "up_defect A pos"
  shows "heap_inv (siftdown A 0 pos) \<and> mset (siftdown A 0 pos) = mset A"
proof -
  obtain h' p' where e: "siftdown_loop A 0 (A ! pos) pos = (h', p')" by force
  have "up_defect (A[pos := A ! pos]) pos" using assms by simp
  from siftdown_loop_correct[OF assms(1) this e]
  show ?thesis using e by (simp add: siftdown_def Let_def)
qed

lemma child_cases: "0 < (i::nat) \<Longrightarrow> (i - 1) div 2 = p \<Longrightarrow> i = 2 * p + 1 \<or> i = 2 * p + 2"
  by arith

lemma min_child_props:
  assumes "2 * pos + 1 < length heap"
  shows "0 < min_child heap (length heap) pos"
    and "min_child heap (length heap) pos < length heap"
    and "(min_child heap (length heap) pos - 1) div 2 = pos"
    and "\<And>s. 0 < s \<Longrightarrow> s < length heap \<Longrightarrow> (s - 1) div 2 = pos \<Longrightarrow>
           heap ! min_child heap (length heap) pos \<le> heap ! s"
proof -
  show "0 < min_child heap (length heap) pos" by (simp add: min_child_def)
  show "min_child heap (length heap) pos < length heap" using assms by (simp add: min_child_def)
  show "(min_child heap (length heap) pos - 1) div 2 = pos" by (simp add: min_child_def)
  fix s assume s: "0 < s" "s < length heap" "(s - 1) div 2 = pos"
  from child_cases[OF s(1) s(3)] s(2)
  show "heap ! min_child heap (length heap) pos \<le> heap ! s"
    by (auto simp: min_child_def)
qed

lemma down_defect_swap:
  assumes d: "down_defect A p"
    and c: "0 < c" "c < length A" "(c - 1) div 2 = p"
    and minc: "\<And>s. 0 < s \<Longrightarrow> s < length A \<Longrightarrow> (s - 1) div 2 = p \<Longrightarrow> A ! c \<le> A ! s"
  shows "down_defect (A[p := A ! c, c := A ! p]) c"
proof -
  let ?B = "A[p := A ! c, c := A ! p]"
  have pc: "p < c" using c(1) c(3) parent_less[of c] by simp
  have edge: "\<And>i. 0 < i \<Longrightarrow> i < length A \<Longrightarrow> i \<noteq> p \<Longrightarrow> (i - 1) div 2 \<noteq> p
                \<Longrightarrow> A ! ((i - 1) div 2) \<le> A ! i"
    using d by (simp add: down_defect_def)
  have grand: "\<And>s. 0 < s \<Longrightarrow> s < length A \<Longrightarrow> (s - 1) div 2 = p \<Longrightarrow> 0 < p
                \<Longrightarrow> A ! ((p - 1) div 2) \<le> A ! s"
    using d by (simp add: down_defect_def)
  have Bp: "?B ! p = A ! c" using pc c(2) by (simp add: nth_list_update)
  have Bc: "?B ! c = A ! p" using pc c(2) by (simp add: nth_list_update)
  have Bo: "\<And>i. i \<noteq> p \<Longrightarrow> i \<noteq> c \<Longrightarrow> ?B ! i = A ! i" by (simp add: nth_list_update)
  have e1: "?B ! ((i - 1) div 2) \<le> ?B ! i"
    if i: "0 < i" "i < length A" "i \<noteq> c" "(i - 1) div 2 \<noteq> c" for i
  proof (cases "i = p")
    case True
    then have p0: "0 < p" using i(1) by simp
    have pp: "(p - 1) div 2 < p" using p0 by arith
    have "?B ! ((p - 1) div 2) = A ! ((p - 1) div 2)"
      using pp pc by (intro Bo) auto
    then show ?thesis using True Bp grand[OF c p0] by simp
  next
    case ip: False
    show ?thesis
    proof (cases "(i - 1) div 2 = p")
      case True
      then show ?thesis using minc[OF i(1) i(2) True] Bp Bo[OF ip i(3)] by simp
    next
      case False
      then show ?thesis using edge[OF i(1) i(2) ip False] Bo[OF ip i(3)] Bo[OF False i(4)] by simp
    qed
  qed
  have e2: "?B ! ((c - 1) div 2) \<le> ?B ! s"
    if s: "0 < s" "s < length A" "(s - 1) div 2 = c" for s
  proof -
    have cs: "c < s" using s(1) s(3) parent_less[of s] by simp
    have sp: "s \<noteq> p" "s \<noteq> c" using cs pc by auto
    have "(s - 1) div 2 \<noteq> p" using s(3) pc by simp
    from edge[OF s(1) s(2) sp(1) this] have "A ! c \<le> A ! s" using s(3) by simp
    then show ?thesis using c(3) Bp Bo[OF sp] by simp
  qed
  show ?thesis
    unfolding down_defect_def using e1 e2 by auto
qed

lemma down_defect_leaf:
  assumes "down_defect A p" and "\<not> 2 * p + 1 < length A"
  shows "up_defect A p"
proof -
  have "\<And>i. 0 < i \<Longrightarrow> i < length A \<Longrightarrow> (i - 1) div 2 \<noteq> p"
    using assms(2) child_cases by fastforce
  then show ?thesis
    using assms(1) unfolding down_defect_def up_defect_def by auto
qed

lemma siftup_loop_correct:
  "pos < length heap \<Longrightarrow> down_defect (heap[pos := newitem]) pos \<Longrightarrow>
   siftup_loop heap (length heap) pos = (h', p') \<Longrightarrow>
   p' < length h' \<and> up_defect (h'[p' := newitem]) p'
   \<and> mset (h'[p' := newitem]) = mset (heap[pos := newitem])"
proof (induction "length heap - pos" arbitrary: heap pos rule: less_induct)
  case less
  let ?c = "min_child heap (length heap) pos"
  let ?A = "heap[pos := newitem]"
  show ?case
  proof (cases "2 * pos + 1 < length heap")
    case True
    note mc = min_child_props[OF True]
    have pc: "pos < ?c" using mc(1) mc(3) parent_less[of ?c] by simp
    have Ac: "?A ! ?c = heap ! ?c" using pc by simp
    have Ap: "?A ! pos = newitem" using less.prems(1) by simp
    let ?h1 = "heap[pos := heap ! ?c]"
    have run: "siftup_loop ?h1 (length ?h1) ?c = (h', p')"
      using less.prems(3) True by (simp add: siftup_loop_step)
    have sw: "?h1[?c := newitem] = ?A[pos := ?A ! ?c, ?c := ?A ! pos]"
      using Ac Ap by simp
    have minA: "\<And>s. 0 < s \<Longrightarrow> s < length ?A \<Longrightarrow> (s - 1) div 2 = pos \<Longrightarrow> ?A ! ?c \<le> ?A ! s"
    proof -
      fix s assume s: "0 < s" "s < length ?A" "(s - 1) div 2 = pos"
      then have "s \<noteq> pos" using parent_less[of s] by auto
      then show "?A ! ?c \<le> ?A ! s" using mc(4)[of s] s Ac by simp
    qed
    have "down_defect (?A[pos := ?A ! ?c, ?c := ?A ! pos]) ?c"
      using down_defect_swap[OF less.prems(2), of ?c] mc minA by simp
    then have dd: "down_defect (?h1[?c := newitem]) ?c" using sw by simp
    have m: "length ?h1 - ?c < length heap - pos" using pc mc(2) by simp
    have len: "?c < length ?h1" using mc(2) by simp
    have "p' < length h' \<and> up_defect (h'[p' := newitem]) p'
          \<and> mset (h'[p' := newitem]) = mset (?h1[?c := newitem])"
      using less.hyps[OF m len dd run] .
    moreover have "mset (?A[pos := ?A ! ?c, ?c := ?A ! pos]) = mset ?A"
      using mset_swap[of ?c ?A pos] mc(2) less.prems(1) by simp
    ultimately show ?thesis using sw by simp
  next
    case False
    then have "(h', p') = (heap, pos)"
      using less.prems(3) by (simp add: siftup_loop_stop)
    moreover have "up_defect ?A pos"
      using down_defect_leaf[OF less.prems(2)] False by simp
    ultimately show ?thesis using less.prems(1) by simp
  qed
qed

lemma siftup_correct:
  assumes "0 < length A" and "down_defect A 0"
  shows "heap_inv (siftup A 0) \<and> mset (siftup A 0) = mset A"
proof -
  obtain h' p' where e: "siftup_loop A (length A) 0 = (h', p')" by force
  have "down_defect (A[0 := A ! 0]) 0" using assms by simp
  from siftup_loop_correct[OF _ this e] assms
  have r: "p' < length h'" "up_defect (h'[p' := A ! 0]) p'" "mset (h'[p' := A ! 0]) = mset A"
    by auto
  have "heap_inv (siftdown (h'[p' := A ! 0]) 0 p') \<and>
        mset (siftdown (h'[p' := A ! 0]) 0 p') = mset (h'[p' := A ! 0])"
    using siftdown_correct[of p' "h'[p' := A ! 0]"] r by simp
  then show ?thesis using e r by (simp add: siftup_def Let_def)
qed

lemma heap_inv_Nil [simp]: "heap_inv []"
  by (simp add: heap_inv_def)

lemma heappush_correct:
  assumes "heap_inv h"
  shows "heap_inv (heappush h x) \<and> mset (heappush h x) = add_mset x (mset h)"
proof -
  have "up_defect (h @ [x]) (length h)"
    using assms parent_less unfolding up_defect_def heap_inv_def
    by (auto simp: nth_append less_Suc_eq)
  from siftdown_correct[OF _ this] show ?thesis by (simp add: heappush_def)
qed

lemma heap_root_le:
  assumes "heap_inv h"
  shows "i < length h \<Longrightarrow> h ! 0 \<le> h ! i"
proof (induction i rule: less_induct)
  case (less i)
  show ?case
  proof (cases "i = 0")
    case True then show ?thesis by simp
  next
    case False
    then have p: "(i - 1) div 2 < i" by arith
    have "h ! ((i - 1) div 2) \<le> h ! i"
      using assms False less.prems by (simp add: heap_inv_def)
    moreover have "h ! 0 \<le> h ! ((i - 1) div 2)"
      using less.IH[OF p] p less.prems by simp
    ultimately show ?thesis by simp
  qed
qed

lemma heap_root_min:
  "heap_inv h \<Longrightarrow> x \<in> set h \<Longrightarrow> h ! 0 \<le> x"
  by (auto simp: in_set_conv_nth heap_root_le)

lemma heappop_correct:
  assumes "heap_inv h" and "h \<noteq> []"
  shows "\<exists>h'. heappop h = Inr (h ! 0, h') \<and> heap_inv h' \<and> mset h = add_mset (h ! 0) (mset h')"
proof -
  obtain b l where h: "h = b @ [l]" using assms(2) by (cases h rule: rev_cases) auto
  show ?thesis
  proof (cases "b = []")
    case True
    then show ?thesis using h by (simp add: heappop_def)
  next
    case False
    let ?A = "b[0 := l]"
    have hb: "heap_inv b"
      unfolding heap_inv_def
    proof
      fix i assume i: "i \<in> {1..<length b}"
      then have p: "(i - 1) div 2 < length b" by auto
      have "(b @ [l]) ! ((i - 1) div 2) \<le> (b @ [l]) ! i"
        using assms(1) i unfolding h heap_inv_def by simp
      then show "b ! ((i - 1) div 2) \<le> b ! i"
        using i p by (simp add: nth_append)
    qed
    have dd: "down_defect ?A 0"
      using hb unfolding down_defect_def heap_inv_def
      by (auto simp: nth_list_update)
    have len: "0 < length ?A" using False by simp
    from siftup_correct[OF len dd]
    have r: "heap_inv (siftup ?A 0)" "mset (siftup ?A 0) = mset ?A" by auto
    have b0: "h ! 0 = b ! 0" using h False by (simp add: nth_append)
    have "mset ?A = add_mset l (mset b - {#b ! 0#})"
      using False by (simp add: mset_update)
    moreover have "b ! 0 \<in># mset b" using False by simp
    ultimately have "add_mset (b ! 0) (mset ?A) = add_mset l (mset b)"
      by simp
    then have "mset h = add_mset (h ! 0) (mset (siftup ?A 0))"
      using h b0 r(2) by simp
    moreover have "heappop h = Inr (h ! 0, siftup ?A 0)"
      using h False b0 by (simp add: heappop_def)
    ultimately show ?thesis using r(1) by blast
  qed
qed

lemma dict_get_update [simp]:
  "dict_get (AList.update k v d) k' = (if k' = k then Inr v else dict_get d k')"
  by (simp add: dict_get_def update_conv')

lemma dict_get_Inr: "dict_get d k = Inr v \<longleftrightarrow> map_of d k = Some v"
  by (simp add: dict_get_def split: option.splits)

lemma dict_get_Inl: "dict_get d k = Inl e \<longleftrightarrow> map_of d k = None \<and> e = KeyError"
  by (auto simp add: dict_get_def split: option.splits)

lemma add_number_eq:
  "transaction_heaps_add_number self k x =
     Inr (self\<lparr>transaction_amt_heaps :=
               AList.update k (pair_after_add (heaps_or_new self k) x) (transaction_amt_heaps self)\<rparr>)"
proof (cases "map_of (transaction_amt_heaps self) k")
  case None
  then show ?thesis
    by (simp add: transaction_heaps_add_number_def dict_contains_def heaps_or_new_def
        pair_after_add_def MaxHeap_empty_def MaxHeap_new_def Let_def)
next
  case (Some p)
  obtain l h where p: "p = (l, h)" by (cases p)
  have g: "dict_get (transaction_amt_heaps self) k = Inr (l, h)"
    using Some p by (simp add: dict_get_def)
  show ?thesis
    using Some p g
    by (simp add: transaction_heaps_add_number_def dict_contains_def heaps_or_new_def
        pair_after_add_def MaxHeap_empty_def MaxHeap_peek_def Let_def)
qed

lemma heappop_Inr:
  "h \<noteq> [] \<Longrightarrow> \<exists>v h'. heappop h = Inr (v, h')"
  using heappop_nonempty by blast

lemma update_same: "map_of d k = Some v \<Longrightarrow> AList.update k v d = d"
  by (induction d) auto

lemma rebalance_eq:
  assumes "map_of (transaction_amt_heaps self) k = Some p"
  shows "transaction_heaps_rebalance self k =
     Inr (self\<lparr>transaction_amt_heaps :=
               AList.update k (pair_after_rebalance p) (transaction_amt_heaps self)\<rparr>)"
proof -
  obtain l h where p: "p = (l, h)" by (cases p)
  have g: "dict_get (transaction_amt_heaps self) k = Inr (l, h)"
    using assms p by (simp add: dict_get_def)
  have same: "self\<lparr>transaction_amt_heaps := AList.update k (l, h) (transaction_amt_heaps self)\<rparr> = self"
    using assms p by (simp add: update_same)
  consider (low) "MinHeap_size h + 2 \<le> MaxHeap_size l"
    | (high) "MaxHeap_size l + 2 \<le> MinHeap_size h"
    | (none) "\<not> MinHeap_size h + 2 \<le> MaxHeap_size l" "\<not> MaxHeap_size l + 2 \<le> MinHeap_size h"
    by arith
  then show ?thesis
  proof cases
    case low
    then have ne: "max_heap l \<noteq> []" by (auto simp: MaxHeap_size_def)
    then obtain v l' where pop: "heappop (max_heap l) = Inr (v, l')"
      using heappop_Inr by blast
    show ?thesis
      using low ne pop g p
      by (simp add: transaction_heaps_rebalance_def rebalance_body_def bigger_smaller_def
          pair_after_rebalance_def MaxHeap_pop_def)
  next
    case high
    then have ne: "min_heap h \<noteq> []" by (auto simp: MinHeap_size_def)
    then obtain v h' where pop: "heappop (min_heap h) = Inr (v, h')"
      using heappop_Inr by blast
    show ?thesis
      using high ne pop g p
      by (simp add: transaction_heaps_rebalance_def rebalance_body_def bigger_smaller_def
          pair_after_rebalance_def MinHeap_pop_def)
  next
    case none
    then show ?thesis
      using g p same
      by (auto simp add: transaction_heaps_rebalance_def rebalance_body_def bigger_smaller_def
          pair_after_rebalance_def)
  qed
qed

section \<open>Sizes of the two heaps\<close>

lemma size_push [simp]:
  "MaxHeap_size (MaxHeap_push l x) = Suc (MaxHeap_size l)"
  "MinHeap_size (MinHeap_push h x) = Suc (MinHeap_size h)"
  by (simp_all add: MaxHeap_size_def MaxHeap_push_def MinHeap_size_def MinHeap_push_def)

lemma size_new [simp]:
  "MaxHeap_size MaxHeap_new = 0" "MinHeap_size MinHeap_new = 0"
  by (simp_all add: MaxHeap_size_def MaxHeap_new_def MinHeap_size_def MinHeap_new_def)

lemma sizes_after_add:
  "(MaxHeap_size (fst (pair_after_add p x)) = Suc (MaxHeap_size (fst p))
      \<and> MinHeap_size (snd (pair_after_add p x)) = MinHeap_size (snd p))
   \<or> (MaxHeap_size (fst (pair_after_add p x)) = MaxHeap_size (fst p)
      \<and> MinHeap_size (snd (pair_after_add p x)) = Suc (MinHeap_size (snd p)))"
  by (simp add: pair_after_add_def)

lemma sizes_after_rebalance:
  "(if MinHeap_size (snd p) + 2 \<le> MaxHeap_size (fst p) then
      Suc (MaxHeap_size (fst (pair_after_rebalance p))) = MaxHeap_size (fst p)
      \<and> MinHeap_size (snd (pair_after_rebalance p)) = Suc (MinHeap_size (snd p))
    else if MaxHeap_size (fst p) + 2 \<le> MinHeap_size (snd p) then
      MaxHeap_size (fst (pair_after_rebalance p)) = Suc (MaxHeap_size (fst p))
      \<and> Suc (MinHeap_size (snd (pair_after_rebalance p))) = MinHeap_size (snd p)
    else pair_after_rebalance p = p)"
proof -
  consider (low) "MinHeap_size (snd p) + 2 \<le> MaxHeap_size (fst p)"
    | (high) "\<not> MinHeap_size (snd p) + 2 \<le> MaxHeap_size (fst p)"
             "MaxHeap_size (fst p) + 2 \<le> MinHeap_size (snd p)"
    | (none) "\<not> MinHeap_size (snd p) + 2 \<le> MaxHeap_size (fst p)"
             "\<not> MaxHeap_size (fst p) + 2 \<le> MinHeap_size (snd p)"
    by arith
  then show ?thesis
  proof cases
    case low
    then have "max_heap (fst p) \<noteq> []" by (auto simp: MaxHeap_size_def)
    from heappop_nonempty[OF this] obtain v l' where
      "heappop (max_heap (fst p)) = Inr (v, l')" "length l' = length (max_heap (fst p)) - 1"
      by blast
    then show ?thesis using low by (simp add: pair_after_rebalance_def MaxHeap_size_def)
  next
    case high
    then have "min_heap (snd p) \<noteq> []" by (auto simp: MinHeap_size_def)
    from heappop_nonempty[OF this] obtain v h' where
      "heappop (min_heap (snd p)) = Inr (v, h')" "length h' = length (min_heap (snd p)) - 1"
      by blast
    then show ?thesis using high by (simp add: pair_after_rebalance_def MinHeap_size_def)
  next
    case none
    then show ?thesis by (simp add: pair_after_rebalance_def)
  qed
qed

lemma pair_size_add [simp]: "pair_size (pair_after_add p x) = Suc (pair_size p)"
  using sizes_after_add[of p x] by (auto simp: pair_size_def)

lemma pair_size_rebalance [simp]: "pair_size (pair_after_rebalance p) = pair_size p"
  using sizes_after_rebalance[of p] by (auto simp: pair_size_def split: if_splits)

lemma balanced_step:
  "balanced p \<Longrightarrow> balanced (pair_after_rebalance (pair_after_add p x))"
  using sizes_after_add[of p x] sizes_after_rebalance[of "pair_after_add p x"]
  by (auto simp: balanced_def split: if_splits)

lemma heaps_or_new_update [simp]:
  "heaps_or_new (self\<lparr>transaction_amt_heaps := AList.update k p d\<rparr>) k = p"
  by (simp add: heaps_or_new_def update_conv')

lemma insert_number_eq:
  "insert_number self k x =
     Inr (self\<lparr>transaction_amt_heaps :=
               AList.update k (pair_after_rebalance (pair_after_add (heaps_or_new self k) x))
                 (transaction_amt_heaps self)\<rparr>)"
  by (simp add: insert_number_def add_number_eq rebalance_eq update_conv')

lemma insert_all_balanced:
  "balanced (heaps_or_new self k) \<Longrightarrow>
   \<exists>self'. insert_all self k xs = Inr self' \<and> balanced (heaps_or_new self' k)"
proof (induction xs arbitrary: self)
  case Nil
  then show ?case by simp
next
  case (Cons x xs)
  let ?s = "self\<lparr>transaction_amt_heaps :=
               AList.update k (pair_after_rebalance (pair_after_add (heaps_or_new self k) x))
                 (transaction_amt_heaps self)\<rparr>"
  have "balanced (heaps_or_new ?s k)" using Cons.prems by (simp add: balanced_step)
  from Cons.IH[OF this] show ?case by (simp add: insert_number_eq)
qed

lemma tracker_size_conv: "tracker_size self k =
   (case map_of (transaction_amt_heaps self) k of None \<Rightarrow> 0 | Some p \<Rightarrow> pair_size p)"
  by (simp add: tracker_size_def pair_size_def split: option.splits)

lemma pair_size_new [simp]: "pair_size (MaxHeap_new, MinHeap_new) = 0"
  by (simp add: pair_size_def)

lemma run_calls_present:
  "map_of (transaction_amt_heaps self) k = Some p \<Longrightarrow>
   \<exists>self'. run_calls self k calls = Inr self'
      \<and> tracker_size self' k = tracker_size self k + count_adds calls"
proof (induction calls arbitrary: self p)
  case Nil
  then show ?case by simp
next
  case (Cons c cs)
  show ?case
  proof (cases c)
    case (AddNumber x)
    let ?s = "self\<lparr>transaction_amt_heaps :=
               AList.update k (pair_after_add (heaps_or_new self k) x) (transaction_amt_heaps self)\<rparr>"
    have m: "map_of (transaction_amt_heaps ?s) k = Some (pair_after_add (heaps_or_new self k) x)"
      by (simp add: update_conv')
    have sz: "tracker_size ?s k = Suc (tracker_size self k)"
      using Cons.prems by (simp add: tracker_size_conv update_conv' heaps_or_new_def)
    from Cons.IH[OF m] sz show ?thesis
      using AddNumber by (simp add: add_number_eq)
  next
    case Rebalance
    let ?s = "self\<lparr>transaction_amt_heaps :=
               AList.update k (pair_after_rebalance p) (transaction_amt_heaps self)\<rparr>"
    have m: "map_of (transaction_amt_heaps ?s) k = Some (pair_after_rebalance p)"
      by (simp add: update_conv')
    have sz: "tracker_size ?s k = tracker_size self k"
      using Cons.prems by (simp add: tracker_size_conv update_conv')
    from Cons.IH[OF m] sz show ?thesis
      using Rebalance Cons.prems by (simp add: rebalance_eq)
  qed
qed

lemma insert_all_keeps_key:
  "insert_all self k xs = Inr self' \<Longrightarrow> dict_contains (transaction_amt_heaps self) k
   \<Longrightarrow> dict_contains (transaction_amt_heaps self') k"
proof (induction xs arbitrary: self)
  case Nil
  then show ?case by simp
next
  case (Cons x xs)
  let ?s = "self\<lparr>transaction_amt_heaps :=
               AList.update k (pair_after_rebalance (pair_after_add (heaps_or_new self k) x))
                 (transaction_amt_heaps self)\<rparr>"
  have "dict_contains (transaction_amt_heaps ?s) k" by (simp add: dict_contains_def update_conv')
  moreover have "insert_all ?s k xs = Inr self'" using Cons.prems(1) by (simp add: insert_number_eq)
  ultimately show ?case using Cons.IH by blast
qed

text \<open>
  C6. From a state in which the identifier was never inserted into, any sequence of
  \<open>transaction_heaps_add_number\<close> and \<open>transaction_heaps_rebalance\<close> calls either runs
  through, and then the two heaps of the identifier hold as many values as there were
  insertions, or raises KeyError because it starts with a rebalancing of the missing
  identifier. Every prefix of a sequence is a sequence, so this holds at every point.
\<close>

theorem size_conservation:
  assumes "\<not> dict_contains (transaction_amt_heaps self) identifier"
  shows "case run_calls self identifier calls of
           Inr self' \<Rightarrow> tracker_size self' identifier = count_adds calls
         | Inl e \<Rightarrow> e = KeyError \<and> (\<exists>rest. calls = Rebalance # rest)"
proof -
  have none: "map_of (transaction_amt_heaps self) identifier = None"
    using assms unfolding dict_contains_def by blast
  show ?thesis
  proof (cases calls)
    case Nil
    then show ?thesis using none by (simp add: tracker_size_def)
  next
    case (Cons c cs)
    show ?thesis
    proof (cases c)
      case (AddNumber x)
      let ?s = "self\<lparr>transaction_amt_heaps :=
                 AList.update identifier (pair_after_add (heaps_or_new self identifier) x)
                   (transaction_amt_heaps self)\<rparr>"
      have m: "map_of (transaction_amt_heaps ?s) identifier
                 = Some (pair_after_add (heaps_or_new self identifier) x)"
        by (simp add: update_conv')
      have sz: "tracker_size ?s identifier = 1"
        using none
        by (simp add: tracker_size_conv update_conv' heaps_or_new_def)
      from run_calls_present[OF m, of cs] sz show ?thesis
        using Cons AddNumber by (auto simp add: add_number_eq)
    next
      case Rebalance
      have "transaction_heaps_rebalance self identifier = Inl KeyError"
        using none
        by (simp add: transaction_heaps_rebalance_def rebalance_body_def dict_get_def)
      then show ?thesis using Cons Rebalance by simp
    qed
  qed
qed

theorem size_conservation_witness:
  "\<not> dict_contains (transaction_amt_heaps TransactionThread_init) ''C1|12345''
   \<and> (case run_calls TransactionThread_init ''C1|12345''
              [AddNumber 5, AddNumber 2, AddNumber 1, Rebalance, Rebalance, AddNumber 8] of
         Inr self' \<Rightarrow> tracker_size self' ''C1|12345''
                        = count_adds [AddNumber 5, AddNumber 2, AddNumber 1, Rebalance, Rebalance, AddNumber 8]
       | Inl e \<Rightarrow> e = KeyError
           \<and> (\<exists>rest. [AddNumber 5, AddNumber 2, AddNumber 1, Rebalance, Rebalance, AddNumber 8]
                        = Rebalance # rest))"
proof -
  have h: "\<not> dict_contains (transaction_amt_heaps TransactionThread_init) ''C1|12345''"
    by (simp add: dict_contains_def TransactionThread_init_def)
  show ?thesis using h size_conservation [OF h] by blast
qed

text \<open>
  C5. From a state in which the identifier was never inserted into, after any list of
  insertions, each followed by one rebalancing, the sizes of the low and of the high heap
  differ by at most 1. One rebalancing of an identifier's pair leaves the state as it
  is or moves exactly one value from one heap to the other, and it leaves the state as
  it is when the two sizes are equal.
\<close>

theorem balance_invariant:
  "(\<not> dict_contains (transaction_amt_heaps self) identifier \<longrightarrow>
      (\<exists>self'. insert_all self identifier xs = Inr self'
         \<and> (xs = [] \<or>
              (\<exists>l h. dict_get (transaction_amt_heaps self') identifier = Inr (l, h)
                 \<and> \<bar>int (MaxHeap_size l) - int (MinHeap_size h)\<bar> \<le> 1))))
   \<and> (dict_get (transaction_amt_heaps self) identifier = Inr (l0, h0) \<longrightarrow>
      (\<exists>self' l h. transaction_heaps_rebalance self identifier = Inr self'
         \<and> dict_get (transaction_amt_heaps self') identifier = Inr (l, h)
         \<and> (self' = self
              \<or> MaxHeap_size l + 1 = MaxHeap_size l0 \<and> MinHeap_size h = MinHeap_size h0 + 1
              \<or> MaxHeap_size l = MaxHeap_size l0 + 1 \<and> MinHeap_size h + 1 = MinHeap_size h0)
         \<and> (MaxHeap_size l0 = MinHeap_size h0 \<longrightarrow> self' = self)))"
proof (intro conjI impI)
  assume "\<not> dict_contains (transaction_amt_heaps self) identifier"
  then have none: "map_of (transaction_amt_heaps self) identifier = None"
    unfolding dict_contains_def by blast
  then have "balanced (heaps_or_new self identifier)"
    by (simp add: heaps_or_new_def balanced_def)
  from insert_all_balanced[OF this, of xs] obtain self' where
    r: "insert_all self identifier xs = Inr self'" "balanced (heaps_or_new self' identifier)"
    by blast
  show "\<exists>self'. insert_all self identifier xs = Inr self'
         \<and> (xs = [] \<or>
              (\<exists>l h. dict_get (transaction_amt_heaps self') identifier = Inr (l, h)
                 \<and> \<bar>int (MaxHeap_size l) - int (MinHeap_size h)\<bar> \<le> 1))"
  proof (cases xs)
    case Nil
    then show ?thesis by simp
  next
    case (Cons x ys)
    let ?s = "self\<lparr>transaction_amt_heaps :=
               AList.update identifier
                 (pair_after_rebalance (pair_after_add (heaps_or_new self identifier) x))
                 (transaction_amt_heaps self)\<rparr>"
    have c: "dict_contains (transaction_amt_heaps ?s) identifier"
      by (simp add: dict_contains_def update_conv')
    have "insert_all ?s identifier ys = Inr self'"
      using r(1) Cons by (simp add: insert_number_eq)
    from insert_all_keeps_key[OF this c]
    have "dict_contains (transaction_amt_heaps self') identifier" .
    then obtain l h where lh: "map_of (transaction_amt_heaps self') identifier = Some (l, h)"
      by (auto simp: dict_contains_def)
    then have "heaps_or_new self' identifier = (l, h)" by (simp add: heaps_or_new_def)
    then have "\<bar>int (MaxHeap_size l) - int (MinHeap_size h)\<bar> \<le> 1"
      using r(2) by (auto simp add: balanced_def)
    then show ?thesis using r(1) lh by (auto simp: dict_get_Inr)
  qed
next
  assume g: "dict_get (transaction_amt_heaps self) identifier = Inr (l0, h0)"
  then have m: "map_of (transaction_amt_heaps self) identifier = Some (l0, h0)"
    by (simp add: dict_get_Inr)
  let ?p = "pair_after_rebalance (l0, h0)"
  let ?s = "self\<lparr>transaction_amt_heaps := AList.update identifier ?p (transaction_amt_heaps self)\<rparr>"
  have run: "transaction_heaps_rebalance self identifier = Inr ?s"
    by (rule rebalance_eq[OF m])
  have same: "?p = (l0, h0) \<Longrightarrow> ?s = self"
    using m by (simp add: update_same)
  have get: "dict_get (transaction_amt_heaps ?s) identifier = Inr (fst ?p, snd ?p)"
    by simp
  from sizes_after_rebalance[of "(l0, h0)"] same
  have "(?s = self
         \<or> MaxHeap_size (fst ?p) + 1 = MaxHeap_size l0 \<and> MinHeap_size (snd ?p) = MinHeap_size h0 + 1
         \<or> MaxHeap_size (fst ?p) = MaxHeap_size l0 + 1 \<and> MinHeap_size (snd ?p) + 1 = MinHeap_size h0)
        \<and> (MaxHeap_size l0 = MinHeap_size h0 \<longrightarrow> ?s = self)"
    by (auto split: if_splits)
  then show "\<exists>self' l h. transaction_heaps_rebalance self identifier = Inr self'
         \<and> dict_get (transaction_amt_heaps self') identifier = Inr (l, h)
         \<and> (self' = self
              \<or> MaxHeap_size l + 1 = MaxHeap_size l0 \<and> MinHeap_size h = MinHeap_size h0 + 1
              \<or> MaxHeap_size l = MaxHeap_size l0 + 1 \<and> MinHeap_size h + 1 = MinHeap_size h0)
         \<and> (MaxHeap_size l0 = MinHeap_size h0 \<longrightarrow> self' = self)"
    using run get by blast
qed

theorem balance_invariant_witness:
  "(\<not> dict_contains (transaction_amt_heaps TransactionThread_init) ''C1|12345''
    \<and> (\<exists>self'. insert_all TransactionThread_init ''C1|12345'' [5, 2, 8] = Inr self'
         \<and> ([5, 2, 8] = ([] :: real list) \<or>
              (\<exists>l h. dict_get (transaction_amt_heaps self') ''C1|12345'' = Inr (l, h)
                 \<and> \<bar>int (MaxHeap_size l) - int (MinHeap_size h)\<bar> \<le> 1))))
   \<and> (dict_get (transaction_amt_heaps
                  (TransactionThread_init\<lparr>transaction_amt_heaps :=
                     [(''C1|12345'', (MaxHeap [- 5, - 2], MinHeap []))]\<rparr>)) ''C1|12345''
         = Inr (MaxHeap [- 5, - 2], MinHeap [])
    \<and> (\<exists>self' l h. transaction_heaps_rebalance
                  (TransactionThread_init\<lparr>transaction_amt_heaps :=
                     [(''C1|12345'', (MaxHeap [- 5, - 2], MinHeap []))]\<rparr>) ''C1|12345'' = Inr self'
         \<and> dict_get (transaction_amt_heaps self') ''C1|12345'' = Inr (l, h)
         \<and> (self' = TransactionThread_init\<lparr>transaction_amt_heaps :=
                     [(''C1|12345'', (MaxHeap [- 5, - 2], MinHeap []))]\<rparr>
              \<or> MaxHeap_size l + 1 = MaxHeap_size (MaxHeap [- 5, - 2])
                  \<and> MinHeap_size h = MinHeap_size (MinHeap []) + 1
              \<or> MaxHeap_size l = MaxHeap_size (MaxHeap [- 5, - 2]) + 1
                  \<and> MinHeap_size h + 1 = MinHeap_size (MinHeap []))))"
proof -
  let ?s = "TransactionThread_init\<lparr>transaction_amt_heaps :=
              [(''C1|12345'', (MaxHeap [- 5, - 2], MinHeap []))]\<rparr>"
  have h1: "\<not> dict_contains (transaction_amt_heaps TransactionThread_init) ''C1|12345''"
    by (simp add: dict_contains_def TransactionThread_init_def)
  have h2: "dict_get (transaction_amt_heaps ?s) ''C1|12345'' = Inr (MaxHeap [- 5, - 2], MinHeap [])"
    by (simp add: dict_get_def)
  show ?thesis
    using h1 h2
      balance_invariant [of TransactionThread_init "''C1|12345''" "[5, 2, 8]"]
      balance_invariant [of ?s "''C1|12345''" _ "MaxHeap [- 5, - 2]" "MinHeap []"]
    by blast
qed

section \<open>The handlers on one record\<close>

lemma insert_number_unfold:
  "(case transaction_heaps_add_number self k x of
      Inl e \<Rightarrow> Inl e
    | Inr self' \<Rightarrow> transaction_heaps_rebalance self' k) = insert_number self k x"
  by (simp add: insert_number_def)

lemma heaps_or_new_totals [simp]:
  "heaps_or_new (self\<lparr>total_amt_dict := d\<rparr>) k = heaps_or_new self k"
  by (simp add: heaps_or_new_def)

lemma handler_store_eq:
  "handler_store self k amt =
     Inr (self\<lparr>total_amt_dict := AList.update k (running_sum self k + amt) (total_amt_dict self),
               transaction_amt_heaps :=
                 AList.update k (pair_after_rebalance (pair_after_add (heaps_or_new self k) amt))
                   (transaction_amt_heaps self)\<rparr>)"
proof (cases "map_of (total_amt_dict self) k")
  case None
  then show ?thesis
    by (simp add: handler_store_def dict_contains_def running_sum_def insert_number_unfold
        insert_number_eq)
next
  case (Some t)
  then have "dict_get (total_amt_dict self) k = Inr t" by (simp add: dict_get_def)
  then show ?thesis
    using Some
    by (simp add: handler_store_def dict_contains_def running_sum_def insert_number_unfold
        insert_number_eq)
qed

lemma get_median_eq:
  assumes "map_of (transaction_amt_heaps self) k = Some p" and "0 < pair_size p"
  shows "transaction_heaps_get_median v self k =
           Inr (Some (py_int (py_round v (pair_median_value p))))"
proof -
  obtain l h where p: "p = (l, h)" by (cases p)
  have g: "dict_get (transaction_amt_heaps self) k = Inr (l, h)"
    using assms(1) p by (simp add: dict_get_def)
  consider (eq) "MaxHeap_size l = MinHeap_size h"
    | (low) "MinHeap_size h < MaxHeap_size l"
    | (high) "MaxHeap_size l < MinHeap_size h"
    by arith
  then show ?thesis
  proof cases
    case eq
    then have "max_heap l \<noteq> []" "min_heap h \<noteq> []"
      using assms(2) p by (auto simp: pair_size_def MaxHeap_size_def MinHeap_size_def)
    then show ?thesis
      using eq g p
      by (simp add: transaction_heaps_get_median_def get_median_body_def bigger_smaller_def
          pair_median_value_def MaxHeap_peek_def MinHeap_peek_def)
  next
    case low
    then have "max_heap l \<noteq> []" by (auto simp: MaxHeap_size_def)
    then show ?thesis
      using low g p
      by (simp add: transaction_heaps_get_median_def get_median_body_def bigger_smaller_def
          pair_median_value_def MaxHeap_peek_def)
  next
    case high
    then have "min_heap h \<noteq> []" by (auto simp: MinHeap_size_def)
    then show ?thesis
      using high g p
      by (simp add: transaction_heaps_get_median_def get_median_body_def bigger_smaller_def
          pair_median_value_def MinHeap_peek_def)
  qed
qed

lemma pair_size_positive [simp]:
  "0 < pair_size (pair_after_rebalance (pair_after_add p x))"
  by simp

section \<open>Rounding\<close>

lemma py_int_of_int [simp]: "py_int (of_int n) = n"
  by (simp add: py_int_def)

lemma py_int_py2_round: "py_int (py2_round x) = round_half_away x"
  by (simp add: py2_round_def round_half_away_def)

lemma py3_round_cases:
  obtains (down) "x - of_int \<lfloor>x\<rfloor> < 1 / 2" "py_int (py3_round x) = \<lfloor>x\<rfloor>"
  | (up) "1 / 2 < x - of_int \<lfloor>x\<rfloor>" "py_int (py3_round x) = \<lfloor>x\<rfloor> + 1"
  | (tie_even) "x - of_int \<lfloor>x\<rfloor> = 1 / 2" "even \<lfloor>x\<rfloor>" "py_int (py3_round x) = \<lfloor>x\<rfloor>"
  | (tie_odd) "x - of_int \<lfloor>x\<rfloor> = 1 / 2" "odd \<lfloor>x\<rfloor>" "py_int (py3_round x) = \<lfloor>x\<rfloor> + 1"
proof -
  have e: "py3_round x =
     (if x - of_int \<lfloor>x\<rfloor> < 1 / 2 then of_int \<lfloor>x\<rfloor>
      else if 1 / 2 < x - of_int \<lfloor>x\<rfloor> then of_int (\<lfloor>x\<rfloor> + 1)
      else if even \<lfloor>x\<rfloor> then of_int \<lfloor>x\<rfloor> else of_int (\<lfloor>x\<rfloor> + 1))"
    by (simp add: py3_round_def Let_def)
  consider "x - of_int \<lfloor>x\<rfloor> < 1 / 2" | "1 / 2 < x - of_int \<lfloor>x\<rfloor>"
    | "x - of_int \<lfloor>x\<rfloor> = 1 / 2" "even \<lfloor>x\<rfloor>" | "x - of_int \<lfloor>x\<rfloor> = 1 / 2" "odd \<lfloor>x\<rfloor>"
    by fastforce
  then show thesis
  proof cases
    case 1
    then have "py_int (py3_round x) = \<lfloor>x\<rfloor>" unfolding e by (simp del: of_int_add)
    then show ?thesis using 1 down by blast
  next
    case 2
    then have "py_int (py3_round x) = \<lfloor>x\<rfloor> + 1"
      unfolding e using py_int_of_int[of "\<lfloor>x\<rfloor> + 1"] by (simp del: py_int_of_int of_int_add)
    then show ?thesis using 2 up by blast
  next
    case 3
    then have "py_int (py3_round x) = \<lfloor>x\<rfloor>" unfolding e by (simp del: of_int_add)
    then show ?thesis using 3 tie_even by blast
  next
    case 4
    then have "py_int (py3_round x) = \<lfloor>x\<rfloor> + 1"
      unfolding e using py_int_of_int[of "\<lfloor>x\<rfloor> + 1"] by (simp del: py_int_of_int of_int_add)
    then show ?thesis using 4 tie_odd by blast
  qed
qed

lemma floor_frac_bounds: "of_int \<lfloor>x\<rfloor> \<le> (x::real)" "(x::real) < of_int \<lfloor>x\<rfloor> + 1"
  by linarith+

lemma py3_round_nearest: "\<bar>real_of_int (py_int (py3_round x)) - x\<bar> \<le> 1 / 2"
proof (cases x rule: py3_round_cases)
  case down
  then show ?thesis using floor_frac_bounds[of x] by simp
next
  case up
  then show ?thesis using floor_frac_bounds[of x] by simp
next
  case tie_even
  then show ?thesis by simp
next
  case tie_odd
  then show ?thesis by simp
qed

lemma py3_round_tie_even:
  assumes a: "\<bar>real_of_int (py_int (py3_round x)) - x\<bar> = 1 / 2"
  shows "even (py_int (py3_round x))"
proof (cases x rule: py3_round_cases)
  case down
  then show ?thesis using a floor_frac_bounds[of x] by simp
next
  case up
  then show ?thesis using a floor_frac_bounds[of x] by simp
next
  case tie_even
  then show ?thesis by simp
next
  case tie_odd
  then show ?thesis by simp
qed

lemma round_half_away_nearest: "\<bar>real_of_int (round_half_away x) - x\<bar> \<le> 1 / 2"
proof (cases "0 \<le> x")
  case True
  have "of_int \<lfloor>x + 1 / 2\<rfloor> \<le> x + 1 / 2" "x + 1 / 2 < of_int \<lfloor>x + 1 / 2\<rfloor> + 1"
    by linarith+
  moreover have "round_half_away x = \<lfloor>x + 1 / 2\<rfloor>" using True by (simp add: round_half_away_def)
  ultimately show ?thesis by linarith
next
  case False
  have "x - 1 / 2 \<le> of_int \<lceil>x - 1 / 2\<rceil>" "of_int \<lceil>x - 1 / 2\<rceil> < x - 1 / 2 + 1"
    by linarith+
  moreover have "round_half_away x = \<lceil>x - 1 / 2\<rceil>" using False by (simp add: round_half_away_def)
  ultimately show ?thesis by linarith
qed

section \<open>The median of two balanced heaps and the running sum\<close>







lemma digit_char_not_bar: "d < 10 \<Longrightarrow> digit_char d \<noteq> CHR ''|''"
proof -
  assume "d < 10"
  then have "d \<in> {0, 1, 2, 3, 4, 5, 6, 7, 8, 9}" by auto
  then show ?thesis by (auto simp: digit_char_def)
qed

lemma str_nat_no_bar: "CHR ''|'' \<notin> set (str_nat n)"
proof (induction n rule: str_nat.induct)
  case (1 n)
  show ?case
  proof (cases "n < 10")
    case True
    then show ?thesis using digit_char_not_bar[of n] by (subst str_nat.simps) auto
  next
    case False
    then show ?thesis
      using "1.IH" digit_char_not_bar[of "n mod 10"] by (subst str_nat.simps) auto
  qed
qed

lemma str_int_no_bar: "CHR ''|'' \<notin> set (str_int i)"
  by (simp add: str_int_def str_nat_no_bar)

lemma last_field_line:
  assumes "CHR ''|'' \<notin> set s"
  shows "last_field (pre @ ''|'' @ s @ [c]) = s"
proof -
  have "butlast (pre @ ''|'' @ s @ [c]) = pre @ ''|'' @ s"
    by (simp add: butlast_append)
  then have "rev (butlast (pre @ ''|'' @ s @ [c])) = rev s @ (CHR ''|'' # rev pre)"
    by simp
  moreover have "takeWhile (\<lambda>c. c \<noteq> CHR ''|'') (rev s @ (CHR ''|'' # rev pre)) = rev s"
  proof -
    have "\<And>x. x \<in> set (rev s) \<Longrightarrow> x \<noteq> CHR ''|''" using assms by auto
    then have "takeWhile (\<lambda>c. c \<noteq> CHR ''|'') (rev s @ (CHR ''|'' # rev pre))
               = rev s @ takeWhile (\<lambda>c. c \<noteq> CHR ''|'') (CHR ''|'' # rev pre)"
      by (rule takeWhile_append2)
    then show ?thesis by simp
  qed
  ultimately show ?thesis by (simp add: last_field_def)
qed

lemma last_field_format:
  "format_line a b (Some m) n t = Inr line \<Longrightarrow> last_field line = str_int t"
proof -
  assume "format_line a b (Some m) n t = Inr line"
  then have "line = (a @ ''|'' @ b @ ''|'' @ str_int m @ ''|'' @ str_nat n) @ ''|'' @ str_int t @ [CHR 0x0A]"
    by (simp add: format_line_def)
  then show ?thesis
    using last_field_line[OF str_int_no_bar,
        of "a @ ''|'' @ b @ ''|'' @ str_int m @ ''|'' @ str_nat n" t "CHR 0x0A"]
    by simp
qed

lemma write_report_line_Inr:
  assumes "write_report_line v self k a b = Inr self'"
  shows "\<exists>line. self' = self\<lparr>output_file := output_file self @ [line]\<rparr>
           \<and> last_field line = str_int (py_int (running_sum self k))"
proof -
  from assms obtain p median tot line where
    g: "dict_get (transaction_amt_heaps self) k = Inr p"
    and md: "transaction_heaps_get_median v self k = Inr median"
    and t: "dict_get (total_amt_dict self) k = Inr tot"
    and f: "format_line a b median (MaxHeap_size (fst p) + MinHeap_size (snd p)) (py_int tot) = Inr line"
    and w: "file_write self line = Inr self'"
    by (auto simp: write_report_line_def Let_def split: sum.splits)
  from f obtain m where m: "median = Some m"
    by (cases median) (auto simp: format_line_def)
  have rs: "running_sum self k = tot" using t by (simp add: running_sum_def dict_get_Inr)
  have "last_field line = str_int (py_int tot)" using f m last_field_format by blast
  moreover have "self' = self\<lparr>output_file := output_file self @ [line]\<rparr>"
    using w by (auto simp: file_write_def split: if_splits)
  ultimately show ?thesis using rs by blast
qed

lemma date_report_lines:
  "date_report v self ks = Inr self' \<Longrightarrow>
   \<exists>lines. self' = self\<lparr>output_file := output_file self @ lines\<rparr>
      \<and> map last_field lines = map (\<lambda>k. str_int (py_int (running_sum self k))) ks"
proof (induction ks arbitrary: self)
  case Nil
  then show ?case by simp
next
  case (Cons k ks)
  from Cons.prems obtain a b s1 where
    w: "write_report_line v self k a b = Inr s1" and r: "date_report v s1 ks = Inr self'"
    by (auto split: sum.splits)
  from write_report_line_Inr[OF w] obtain line where
    s1: "s1 = self\<lparr>output_file := output_file self @ [line]\<rparr>"
    and lf: "last_field line = str_int (py_int (running_sum self k))"
    by blast
  from Cons.IH[OF r] obtain lines where
    s': "self' = s1\<lparr>output_file := output_file s1 @ lines\<rparr>"
    and ls: "map last_field lines = map (\<lambda>k. str_int (py_int (running_sum s1 k))) ks"
    by blast
  have rs: "\<And>k. running_sum s1 k = running_sum self k" using s1 by (simp add: running_sum_def)
  have "self' = self\<lparr>output_file := output_file self @ (line # lines)\<rparr>"
    using s' s1 by simp
  moreover have "map last_field (line # lines)
                 = map (\<lambda>k. str_int (py_int (running_sum self k))) (k # ks)"
    using lf ls rs by simp
  ultimately show ?case by blast
qed

section \<open>The final field of an output line\<close>

lemma write_report_line_total:
  assumes "map_of (transaction_amt_heaps self) k = Some p" and "0 < pair_size p"
    and "map_of (total_amt_dict self) k = Some t" and "\<not> output_closed self"
  shows "\<exists>self'. write_report_line v self k a b = Inr self'"
  using assms get_median_eq[OF assms(1,2), of v]
  by (simp add: write_report_line_def dict_get_def format_line_def file_write_def Let_def)

text \<open>
  C3, as amended. The final field of every line a handler writes is the running sum of
  the line's identifier truncated towards zero, as \<open>int\<close> does. The zip handler, on a
  record that is not the end marker and with its file open, writes one line, whose final
  field is the truncated sum including the record. The date handler, on the end marker,
  writes one line for each identifier, in the order of the dictionary, each ending in
  the truncated sum of its identifier.
\<close>

theorem final_field_truncated_total:
  "(cmte_id d \<noteq> [] \<and> \<not> output_closed self \<longrightarrow>
      (\<exists>self' line. zip_handler v self d = Inr self'
          \<and> output_file self' = output_file self @ [line]
          \<and> last_field line = str_int (py_int (running_sum self' (cmte_id d @ ''|'' @ zipcode d)))))
   \<and> (cmte_id d = [] \<and> date_handler v self d = Inr self'' \<longrightarrow>
      (\<exists>lines. output_file self'' = output_file self @ lines
          \<and> map last_field lines
              = map (\<lambda>k. str_int (py_int (running_sum self k))) (map fst (transaction_amt_heaps self))))"
proof (intro conjI impI)
  assume a: "cmte_id d \<noteq> [] \<and> \<not> output_closed self"
  let ?k = "cmte_id d @ ''|'' @ zipcode d"
  let ?p = "pair_after_rebalance (pair_after_add (heaps_or_new self ?k) (transaction_amt d))"
  let ?s1 = "self\<lparr>total_amt_dict :=
                   AList.update ?k (running_sum self ?k + transaction_amt d) (total_amt_dict self),
                 transaction_amt_heaps := AList.update ?k ?p (transaction_amt_heaps self)\<rparr>"
  have hs: "handler_store self ?k (transaction_amt d) = Inr ?s1" by (rule handler_store_eq)
  have "\<exists>self'. write_report_line v ?s1 ?k (cmte_id d) (zipcode d) = Inr self'"
    by (rule write_report_line_total[where p = ?p and t = "running_sum self ?k + transaction_amt d"])
       (use a in \<open>simp_all add: update_conv'\<close>)
  then obtain self' where w: "write_report_line v ?s1 ?k (cmte_id d) (zipcode d) = Inr self'"
    by blast
  from write_report_line_Inr[OF w] obtain line where
    s': "self' = ?s1\<lparr>output_file := output_file ?s1 @ [line]\<rparr>"
    and lf: "last_field line = str_int (py_int (running_sum ?s1 ?k))"
    by blast
  have "running_sum self' ?k = running_sum ?s1 ?k" using s' by (simp add: running_sum_def)
  moreover have "zip_handler v self d = Inr self'"
    using a hs w by (simp add: zip_handler_def)
  moreover have "output_file self' = output_file self @ [line]" using s' by simp
  ultimately show "\<exists>self' line. zip_handler v self d = Inr self'
          \<and> output_file self' = output_file self @ [line]
          \<and> last_field line = str_int (py_int (running_sum self' ?k))"
    using lf by auto
next
  assume a: "cmte_id d = [] \<and> date_handler v self d = Inr self''"
  then obtain s where r: "date_report v self (map fst (transaction_amt_heaps self)) = Inr s"
    and c: "self'' = file_close s"
    by (auto simp: date_handler_def split: sum.splits)
  from date_report_lines[OF r] obtain lines where
    "s = self\<lparr>output_file := output_file self @ lines\<rparr>"
    "map last_field lines
       = map (\<lambda>k. str_int (py_int (running_sum self k))) (map fst (transaction_amt_heaps self))"
    by blast
  then show "\<exists>lines. output_file self'' = output_file self @ lines
          \<and> map last_field lines
              = map (\<lambda>k. str_int (py_int (running_sum self k))) (map fst (transaction_amt_heaps self))"
    using c by (auto simp: file_close_def)
qed

text \<open>
  C3 as stated fails: a single record of amount 1.75 makes both handlers write a line
  whose final field is 1, and 1.75 rounded to the nearest integer is 2.
\<close>

theorem final_field_rounded_counterexample:
  "run (zip_handler Py3) TransactionThread_init
     [\<lparr>cmte_id = ''C1'', zipcode = ''12345'', transaction_dt = ''01312017'', transaction_amt = 7 / 4\<rparr>]
   = Inr \<lparr>total_amt_dict = [(''C1|12345'', 7 / 4)],
          transaction_amt_heaps = [(''C1|12345'', (MaxHeap [- (7 / 4)], MinHeap []))],
          output_file = [''C1|12345|2|1|1'' @ [CHR 0x0A]], output_closed = False\<rparr>
   \<and> run (date_handler Py3) TransactionThread_init
     [\<lparr>cmte_id = ''C1'', zipcode = ''12345'', transaction_dt = ''01312017'', transaction_amt = 7 / 4\<rparr>,
      end_data]
   = Inr \<lparr>total_amt_dict = [(''C1|01312017'', 7 / 4)],
          transaction_amt_heaps = [(''C1|01312017'', (MaxHeap [- (7 / 4)], MinHeap []))],
          output_file = [''C1|01312017|2|1|1'' @ [CHR 0x0A]], output_closed = True\<rparr>
   \<and> last_field (''C1|12345|2|1|1'' @ [CHR 0x0A]) = ''1''
   \<and> last_field (''C1|01312017|2|1|1'' @ [CHR 0x0A]) = ''1''
   \<and> str_int (round_half_away (7 / 4)) = ''2''"
  by code_simp

theorem final_field_truncated_total_witness:
  "(cmte_id \<lparr>cmte_id = ''C1'', zipcode = ''12345'', transaction_dt = ''01312017'', transaction_amt = 7 / 4\<rparr> \<noteq> []
    \<and> \<not> output_closed TransactionThread_init
    \<and> (\<exists>self' line. zip_handler Py3 TransactionThread_init
           \<lparr>cmte_id = ''C1'', zipcode = ''12345'', transaction_dt = ''01312017'', transaction_amt = 7 / 4\<rparr>
           = Inr self'
          \<and> output_file self' = output_file TransactionThread_init @ [line]
          \<and> last_field line = str_int (py_int (running_sum self' (''C1'' @ ''|'' @ ''12345'')))))
   \<and> (cmte_id end_data = []
    \<and> date_handler Py3
         \<lparr>total_amt_dict = [(''C1|01312017'', 7 / 4)],
          transaction_amt_heaps = [(''C1|01312017'', (MaxHeap [- (7 / 4)], MinHeap []))],
          output_file = [], output_closed = False\<rparr> end_data
       = Inr \<lparr>total_amt_dict = [(''C1|01312017'', 7 / 4)],
          transaction_amt_heaps = [(''C1|01312017'', (MaxHeap [- (7 / 4)], MinHeap []))],
          output_file = [''C1|01312017|2|1|1'' @ [CHR 0x0A]], output_closed = True\<rparr>
    \<and> (\<exists>lines. [''C1|01312017|2|1|1'' @ [CHR 0x0A]] = [] @ lines
          \<and> map last_field lines = [str_int (py_int (7 / 4))]))"
proof -
  let ?d = "\<lparr>cmte_id = ''C1'', zipcode = ''12345'', transaction_dt = ''01312017'', transaction_amt = 7 / 4\<rparr>"
  let ?s = "\<lparr>total_amt_dict = [(''C1|01312017'', 7 / 4)],
          transaction_amt_heaps = [(''C1|01312017'', (MaxHeap [- (7 / 4)], MinHeap []))],
          output_file = [], output_closed = False\<rparr>"
  let ?s' = "\<lparr>total_amt_dict = [(''C1|01312017'', 7 / 4)],
          transaction_amt_heaps = [(''C1|01312017'', (MaxHeap [- (7 / 4)], MinHeap []))],
          output_file = [''C1|01312017|2|1|1'' @ [CHR 0x0A]], output_closed = True\<rparr>"
  have h1: "cmte_id ?d \<noteq> [] \<and> \<not> output_closed TransactionThread_init"
    by (simp add: TransactionThread_init_def)
  have h2: "cmte_id end_data = []" by (simp add: end_data_def)
  have h3: "date_handler Py3 ?s end_data = Inr ?s'" by code_simp
  have rs: "running_sum ?s ''C1|01312017'' = 7 / 4" by (simp add: running_sum_def)
  from final_field_truncated_total [of ?d TransactionThread_init Py3, THEN conjunct1, rule_format, OF h1]
  have z: "\<exists>self' line. zip_handler Py3 TransactionThread_init ?d = Inr self'
          \<and> output_file self' = output_file TransactionThread_init @ [line]
          \<and> last_field line = str_int (py_int (running_sum self' (''C1'' @ ''|'' @ ''12345'')))"
    by simp
  from final_field_truncated_total [of end_data ?s Py3 ?s', THEN conjunct2, rule_format, OF conjI, OF h2 h3]
  have dt: "\<exists>lines. [''C1|01312017|2|1|1'' @ [CHR 0x0A]] = [] @ lines
          \<and> map last_field lines = [str_int (py_int (7 / 4))]"
    using rs by simp
  show ?thesis using h1 h2 h3 z dt by blast
qed

section \<open>Dispatch by zipcode and date\<close>



section \<open>The two heaps split the values at the median\<close>

lemma low_root:
  assumes "heap_inv (max_heap l)" and "max_heap l \<noteq> []"
  shows "- (max_heap l ! 0) \<in># low_values l" and "\<And>a. a \<in># low_values l \<Longrightarrow> a \<le> - (max_heap l ! 0)"
proof -
  have "max_heap l ! 0 \<in> set (max_heap l)" using assms(2) by simp
  then show "- (max_heap l ! 0) \<in># low_values l" by (simp add: low_values_def)
  fix a assume "a \<in># low_values l"
  then obtain y where y: "y \<in> set (max_heap l)" "a = - y" by (auto simp: low_values_def)
  from heap_root_min[OF assms(1) y(1)] y(2) show "a \<le> - (max_heap l ! 0)" by simp
qed

lemma high_root:
  assumes "heap_inv (min_heap h)" and "min_heap h \<noteq> []"
  shows "min_heap h ! 0 \<in># high_values h" and "\<And>b. b \<in># high_values h \<Longrightarrow> min_heap h ! 0 \<le> b"
proof -
  show "min_heap h ! 0 \<in># high_values h" using assms(2) by (simp add: high_values_def)
  fix b assume "b \<in># high_values h"
  then have "b \<in> set (min_heap h)" by (simp add: high_values_def)
  from heap_root_min[OF assms(1) this] show "min_heap h ! 0 \<le> b" .
qed

lemma MaxHeap_push_values:
  "heap_inv (max_heap l) \<Longrightarrow>
   heap_inv (max_heap (MaxHeap_push l x)) \<and> low_values (MaxHeap_push l x) = add_mset x (low_values l)"
  using heappush_correct[of "max_heap l" "- x"]
  by (simp add: MaxHeap_push_def low_values_def)

lemma MinHeap_push_values:
  "heap_inv (min_heap h) \<Longrightarrow>
   heap_inv (min_heap (MinHeap_push h x)) \<and> high_values (MinHeap_push h x) = add_mset x (high_values h)"
  using heappush_correct[of "min_heap h" x]
  by (simp add: MinHeap_push_def high_values_def)

lemma ordered_after_add:
  assumes o: "ordered_pair p M" and ne: "M \<noteq> {#} \<longrightarrow> max_heap (fst p) \<noteq> []"
  shows "ordered_pair (pair_after_add p x) (add_mset x M)
         \<and> max_heap (fst (pair_after_add p x)) \<noteq> []"
proof -
  obtain l h where p: "p = (l, h)" by (cases p)
  have hl: "heap_inv (max_heap l)" and hh: "heap_inv (min_heap h)"
    and sum: "low_values l + high_values h = M"
    and ord: "\<And>a b. a \<in># low_values l \<Longrightarrow> b \<in># high_values h \<Longrightarrow> a \<le> b"
    using o p by (auto simp: ordered_pair_def)
  show ?thesis
  proof (cases "max_heap l = [] \<or> x < - (max_heap l ! 0)")
    case True
    then have e: "pair_after_add p x = (MaxHeap_push l x, h)" using p by (simp add: pair_after_add_def)
    note pv = MaxHeap_push_values[OF hl, of x]
    have "\<And>b. b \<in># high_values h \<Longrightarrow> x \<le> b"
    proof -
      fix b assume b: "b \<in># high_values h"
      then have "M \<noteq> {#}" using sum by auto
      then have nel: "max_heap l \<noteq> []" using ne p by simp
      then have "x < - (max_heap l ! 0)" using True by simp
      moreover have "- (max_heap l ! 0) \<le> b" using ord[OF low_root(1)[OF hl nel] b] .
      ultimately show "x \<le> b" by simp
    qed
    then have "\<forall>a\<in>#add_mset x (low_values l). \<forall>b\<in>#high_values h. a \<le> b"
      using ord by auto
    moreover have "max_heap (MaxHeap_push l x) \<noteq> []"
      by (metis length_heappush MaxHeap.sel MaxHeap_push_def length_0_conv nat.distinct(1))
    ultimately show ?thesis
      using e pv hh sum by (simp add: ordered_pair_def)
  next
    case False
    then have nel: "max_heap l \<noteq> []" and ge: "- (max_heap l ! 0) \<le> x" by auto
    have e: "pair_after_add p x = (l, MinHeap_push h x)"
      using False p by (simp add: pair_after_add_def)
    note pv = MinHeap_push_values[OF hh, of x]
    have "\<And>a. a \<in># low_values l \<Longrightarrow> a \<le> x"
      using low_root(2)[OF hl nel] ge by force
    then have "\<forall>a\<in>#low_values l. \<forall>b\<in>#add_mset x (high_values h). a \<le> b"
      using ord by auto
    then show ?thesis
      using e pv hl sum nel by (simp add: ordered_pair_def)
  qed
qed

lemma ordered_after_rebalance:
  assumes o: "ordered_pair p M" and ne: "max_heap (fst p) \<noteq> []"
  shows "ordered_pair (pair_after_rebalance p) M
         \<and> max_heap (fst (pair_after_rebalance p)) \<noteq> []"
proof -
  obtain l h where p: "p = (l, h)" by (cases p)
  have hl: "heap_inv (max_heap l)" and hh: "heap_inv (min_heap h)"
    and sum: "low_values l + high_values h = M"
    and ord: "\<And>a b. a \<in># low_values l \<Longrightarrow> b \<in># high_values h \<Longrightarrow> a \<le> b"
    using o p by (auto simp: ordered_pair_def)
  have nel: "max_heap l \<noteq> []" using ne p by simp
  consider (low) "MinHeap_size h + 2 \<le> MaxHeap_size l"
    | (high) "\<not> MinHeap_size h + 2 \<le> MaxHeap_size l" "MaxHeap_size l + 2 \<le> MinHeap_size h"
    | (none) "\<not> MinHeap_size h + 2 \<le> MaxHeap_size l" "\<not> MaxHeap_size l + 2 \<le> MinHeap_size h"
    by arith
  then show ?thesis
  proof cases
    case low
    from heappop_correct[OF hl nel] obtain l' where
      pop: "heappop (max_heap l) = Inr (max_heap l ! 0, l')" and hl': "heap_inv l'"
      and ms: "mset (max_heap l) = add_mset (max_heap l ! 0) (mset l')"
      by blast
    let ?r = "- (max_heap l ! 0)"
    have e: "pair_after_rebalance p = (MaxHeap l', MinHeap_push h ?r)"
      using low pop p by (simp add: pair_after_rebalance_def)
    note pv = MinHeap_push_values[OF hh, of ?r]
    have lv: "low_values l = add_mset ?r (low_values (MaxHeap l'))"
      using ms by (simp add: low_values_def)
    have len: "length l' = length (max_heap l) - 1"
      using ms by (metis size_mset size_add_mset diff_Suc_1)
    have "l' \<noteq> []" using len low by (auto simp: MaxHeap_size_def)
    moreover have "\<forall>a\<in>#low_values (MaxHeap l'). \<forall>b\<in>#add_mset ?r (high_values h). a \<le> b"
      using ord low_root(2)[OF hl nel] lv by auto
    moreover have "low_values (MaxHeap l') + add_mset ?r (high_values h) = M"
      using sum lv by simp
    ultimately show ?thesis
      using e pv hl' by (simp add: ordered_pair_def)
  next
    case high
    then have neh: "min_heap h \<noteq> []" by (auto simp: MinHeap_size_def)
    from heappop_correct[OF hh neh] obtain h' where
      pop: "heappop (min_heap h) = Inr (min_heap h ! 0, h')" and hh': "heap_inv h'"
      and ms: "mset (min_heap h) = add_mset (min_heap h ! 0) (mset h')"
      by blast
    let ?r = "min_heap h ! 0"
    have e: "pair_after_rebalance p = (MaxHeap_push l ?r, MinHeap h')"
      using high pop p by (simp add: pair_after_rebalance_def)
    note pv = MaxHeap_push_values[OF hl, of ?r]
    have hv: "high_values h = add_mset ?r (high_values (MinHeap h'))"
      using ms by (simp add: high_values_def)
    have "max_heap (MaxHeap_push l ?r) \<noteq> []"
      by (metis length_heappush MaxHeap.sel MaxHeap_push_def length_0_conv nat.distinct(1))
    moreover have "\<forall>a\<in>#add_mset ?r (low_values l). \<forall>b\<in>#high_values (MinHeap h'). a \<le> b"
      using ord high_root(2)[OF hh neh] hv by auto
    moreover have "add_mset ?r (low_values l) + high_values (MinHeap h') = M"
      using sum hv by simp
    ultimately show ?thesis
      using e pv hh' by (simp add: ordered_pair_def)
  next
    case none
    then have "pair_after_rebalance p = p" using p by (simp add: pair_after_rebalance_def)
    then show ?thesis using o ne by simp
  qed
qed

lemma sorted_last_max:
  assumes "sorted (ys::real list)" and "m \<in> set ys" and "\<And>a. a \<in> set ys \<Longrightarrow> a \<le> m"
  shows "ys ! (length ys - 1) = m"
proof -
  have ne: "ys \<noteq> []" using assms(2) by auto
  then have l: "ys ! (length ys - 1) = last ys" by (simp add: last_conv_nth)
  have "last ys \<in> set ys" using ne by simp
  then have "last ys \<le> m" using assms(3) by blast
  moreover have "m \<le> last ys"
  proof -
    obtain i where i: "i < length ys" "ys ! i = m"
      using assms(2) by (auto simp: in_set_conv_nth)
    then have "ys ! i \<le> ys ! (length ys - 1)"
      using assms(1) by (intro sorted_nth_mono) auto
    then show ?thesis using i l by simp
  qed
  ultimately show ?thesis using l by simp
qed

lemma sorted_first_min:
  assumes "sorted (ys::real list)" and "m \<in> set ys" and "\<And>b. b \<in> set ys \<Longrightarrow> m \<le> b"
  shows "ys ! 0 = m"
proof -
  have ne: "ys \<noteq> []" using assms(2) by auto
  then have "ys ! 0 \<in> set ys" by simp
  then have "m \<le> ys ! 0" using assms(3) by blast
  moreover have "ys ! 0 \<le> m"
  proof -
    obtain i where i: "i < length ys" "ys ! i = m"
      using assms(2) by (auto simp: in_set_conv_nth)
    then have "ys ! 0 \<le> ys ! i"
      using assms(1) by (intro sorted_nth_mono) auto
    then show ?thesis using i by simp
  qed
  ultimately show ?thesis by simp
qed

lemma median_of_pair:
  assumes o: "ordered_pair p (mset xs)" and b: "balanced p"
    and nel: "max_heap (fst p) \<noteq> []"
  shows "pair_median_value p = statistical_median xs"
proof -
  obtain l h where p: "p = (l, h)" by (cases p)
  have hl: "heap_inv (max_heap l)" and hh: "heap_inv (min_heap h)"
    and sum: "low_values l + high_values h = mset xs"
    and ord: "\<And>a b. a \<in># low_values l \<Longrightarrow> b \<in># high_values h \<Longrightarrow> a \<le> b"
    using o p by (auto simp: ordered_pair_def)
  have nl: "max_heap l \<noteq> []" using nel p by simp
  define Ls where "Ls = sorted_list_of_multiset (low_values l)"
  define Hs where "Hs = sorted_list_of_multiset (high_values h)"
  define nL where "nL = MaxHeap_size l"
  define nH where "nH = MinHeap_size h"
  have "size (mset Ls) = size (low_values l)" by (simp add: Ls_def)
  then have lenL: "length Ls = nL"
    by (simp add: low_values_def nL_def MaxHeap_size_def)
  have "size (mset Hs) = size (high_values h)" by (simp add: Hs_def)
  then have lenH: "length Hs = nH"
    by (simp add: high_values_def nH_def MinHeap_size_def)
  have nL0: "0 < nL" using nl by (simp add: nL_def MaxHeap_size_def)
  have srt: "sorted (Ls @ Hs)"
    using ord by (auto simp: sorted_append Ls_def Hs_def)
  have "mset (Ls @ Hs) = mset xs" using sum by (simp add: Ls_def Hs_def)
  from properties_for_sort[OF this srt] have s: "sort xs = Ls @ Hs" .
  have "length (sort xs) = length (Ls @ Hs)" using s by simp
  then have n: "length xs = nL + nH"
    using lenL lenH by simp
  let ?mx = "- (max_heap l ! 0)"
  have "Ls ! (length Ls - 1) = ?mx"
    using low_root[OF hl nl]
    by (intro sorted_last_max) (simp_all add: Ls_def)
  then have atL: "(Ls @ Hs) ! (nL - 1) = ?mx"
    using lenL nL0 by (simp add: nth_append)
  have atH: "(Ls @ Hs) ! nL = min_heap h ! 0" if "0 < nH"
  proof -
    have nh: "min_heap h \<noteq> []" using that by (auto simp: nH_def MinHeap_size_def)
    have "Hs ! 0 = min_heap h ! 0"
      using high_root[OF hh nh]
      by (intro sorted_first_min) (simp_all add: Hs_def)
    then show ?thesis using lenL by (simp add: nth_append)
  qed
  have bal: "nL \<le> nH + 1" "nH \<le> nL + 1"
    using b p by (simp_all add: balanced_def nL_def nH_def)
  consider (eq) "nL = nH" | (low) "nL = nH + 1" | (high) "nH = nL + 1"
    using bal by arith
  then show ?thesis
  proof cases
    case eq
    then have h0: "0 < nH" using nL0 by simp
    have ev: "even (length xs)" "length xs div 2 = nL" using n eq by simp_all
    have "statistical_median xs = ((Ls @ Hs) ! (nL - 1) + (Ls @ Hs) ! nL) / 2"
      using ev s by (simp add: statistical_median_def Let_def)
    also have "\<dots> = (?mx + min_heap h ! 0) / 2" using atL atH[OF h0] by simp
    finally show ?thesis
      using eq p by (simp add: pair_median_value_def nL_def nH_def add.commute)
  next
    case low
    have od: "odd (length xs)" "length xs div 2 = nL - 1" using n low by simp_all
    have "statistical_median xs = (Ls @ Hs) ! (nL - 1)"
      using od s by (simp add: statistical_median_def Let_def)
    then show ?thesis
      using atL low p by (simp add: pair_median_value_def nL_def nH_def)
  next
    case high
    then have h0: "0 < nH" by simp
    have od: "odd (length xs)" "length xs div 2 = nL" using n high by simp_all
    have "statistical_median xs = (Ls @ Hs) ! nL"
      using od s by (simp add: statistical_median_def Let_def)
    then show ?thesis
      using atH[OF h0] high p by (simp add: pair_median_value_def nL_def nH_def)
  qed
qed

lemma insert_all_ordered:
  assumes "ordered_pair (heaps_or_new self k) (mset ys)"
    and "balanced (heaps_or_new self k)"
    and "ys \<noteq> [] \<longrightarrow> max_heap (fst (heaps_or_new self k)) \<noteq> []"
  shows "\<exists>self'. insert_all self k xs = Inr self'
           \<and> ordered_pair (heaps_or_new self' k) (mset (ys @ xs))
           \<and> balanced (heaps_or_new self' k)
           \<and> (ys @ xs \<noteq> [] \<longrightarrow> max_heap (fst (heaps_or_new self' k)) \<noteq> [])
           \<and> (xs \<noteq> [] \<longrightarrow> dict_contains (transaction_amt_heaps self') k)"
  using assms
proof (induction xs arbitrary: self ys)
  case Nil
  then show ?case by simp
next
  case (Cons x xs)
  let ?p = "heaps_or_new self k"
  let ?s = "self\<lparr>transaction_amt_heaps :=
               AList.update k (pair_after_rebalance (pair_after_add ?p x))
                 (transaction_amt_heaps self)\<rparr>"
  have ne: "mset ys \<noteq> {#} \<longrightarrow> max_heap (fst ?p) \<noteq> []" using Cons.prems(3) by simp
  from ordered_after_add[OF Cons.prems(1) ne, of x]
  have a: "ordered_pair (pair_after_add ?p x) (add_mset x (mset ys))"
    "max_heap (fst (pair_after_add ?p x)) \<noteq> []" by auto
  from ordered_after_rebalance[OF a]
  have r: "ordered_pair (pair_after_rebalance (pair_after_add ?p x)) (mset (ys @ [x]))"
    "max_heap (fst (pair_after_rebalance (pair_after_add ?p x))) \<noteq> []" by auto
  have b: "balanced (pair_after_rebalance (pair_after_add ?p x))"
    by (rule balanced_step[OF Cons.prems(2)])
  have c: "dict_contains (transaction_amt_heaps ?s) k"
    by (simp add: dict_contains_def update_conv')
  from Cons.IH[of ?s "ys @ [x]"] r b
  obtain self' where s': "insert_all ?s k xs = Inr self'"
    "ordered_pair (heaps_or_new self' k) (mset ((ys @ [x]) @ xs))"
    "balanced (heaps_or_new self' k)"
    "max_heap (fst (heaps_or_new self' k)) \<noteq> []"
    by auto
  have "dict_contains (transaction_amt_heaps self') k"
    by (rule insert_all_keeps_key[OF s'(1) c])
  then show ?case using s' by (simp add: insert_number_eq)
qed

section \<open>The median returned\<close>




text \<open>
  The scenario of the specification: 5, 2 and 8 inserted in that order give the medians
  5, 4 (from 3.5) and 5.
\<close>

lemma spec_scenario_5_2_8:
  "(case insert_all TransactionThread_init ''C1|12345'' [5] of
      Inr s \<Rightarrow> transaction_heaps_get_median Py3 s ''C1|12345'' | Inl e \<Rightarrow> Inl e) = Inr (Some 5)
   \<and> (case insert_all TransactionThread_init ''C1|12345'' [5, 2] of
      Inr s \<Rightarrow> transaction_heaps_get_median Py3 s ''C1|12345'' | Inl e \<Rightarrow> Inl e) = Inr (Some 4)
   \<and> (case insert_all TransactionThread_init ''C1|12345'' [5, 2, 8] of
      Inr s \<Rightarrow> transaction_heaps_get_median Py3 s ''C1|12345'' | Inl e \<Rightarrow> Inl e) = Inr (Some 5)"
  by code_simp

end
